theory Spec2Isabelle
  imports Main "HOL-Library.Word"
begin

section \<open>The data of \<^verbatim>\<open>cmd/etrace/main.go\<close>\<close>

text \<open>
  An \<^verbatim>\<open>error\<close> value is represented by its message (what \<^verbatim>\<open>err.Error()\<close> returns);
  \<^verbatim>\<open>fmt.Errorf("prefix: %w", err)\<close> is the prefix followed by the message of the wrapped
  error. A \<^verbatim>\<open>time.Duration\<close> is only stored and copied by this program, never computed with,
  so it is an integer. \<^verbatim>\<open>uint\<close> is the 64-bit unsigned integer of the amd64 target.
\<close>

type_synonym error = string
type_synonym duration = int

text \<open>\<^verbatim>\<open>strace.ExecveTiming\<close>: the orchestrator reads the field \<^verbatim>\<open>TotalTime\<close> only.\<close>

record execve_timing =
  TotalTime :: duration

text \<open>\<^verbatim>\<open>type Execution struct\<close>; a nil \<^verbatim>\<open>*strace.ExecveTiming\<close> is \<open>None\<close>.\<close>

record Execution =
  ExecveTiming :: "execve_timing option"
  TimeToDisplay :: duration
  TimeToRun :: duration
  Errors :: "error list"

text \<open>\<^verbatim>\<open>xdotool.Window\<close>: the two selector fields the orchestrator sets.\<close>

record Window =
  Class :: string
  Name :: string

text \<open>\<^verbatim>\<open>type cmdRun struct\<close>; the positional \<^verbatim>\<open>Args.Cmd\<close> is the field \<open>Cmd\<close>.\<close>

record cmdRun =
  WindowName :: string
  PrepareScript :: string
  PrepareScriptArgs :: "string list"
  RestoreScript :: string
  RestoreScriptArgs :: "string list"
  WindowClass :: string
  NoTrace :: bool
  RunThroughSnap :: bool
  DiscardSnapNs :: bool
  ProgramStdoutLog :: string
  ProgramStderrLog :: string
  JSONOutput :: bool
  OutputFile :: string
  NoWindowWait :: bool
  Cmd :: "string list"

text \<open>\<^verbatim>\<open>type Command struct\<close>, the value of the global \<^verbatim>\<open>currentCmd\<close>.\<close>

record Command =
  Run :: cmdRun
  ShowErrors :: bool
  AdditionalIterations :: "64 word"

section \<open>Effects\<close>

text \<open>
  Every call that leaves the function is an event of the trace, in program order. The
  temporary directory, its fifo, the sentinel writer \<^verbatim>\<open>fw\<close> and the channel
  \<^verbatim>\<open>doneCh\<close> of a trial are named by the index of the trial that created them
  (\<^verbatim>\<open>ioutil.TempDir\<close> returns a fresh directory on every call). \<open>ReaderDone\<close> is the
  \<^verbatim>\<open>close(doneCh)\<close> of the goroutine; it is the only event that the control thread does
  not emit itself.
\<close>

datatype event =
    OpenOutput string
  | LogPrintln string
  | RunScript string "string list"
  | TempDir nat
  | Mkfifo nat
  | OpenFifo nat
  | CloseFifo nat
  | GoReader nat
  | ReaderDone nat
  | AwaitDone nat
  | RemoveAll nat
  | TraceExecCommand nat "string list"
  | ExecCommand string "string list"
  | OpenLog string
  | CloseLog string
  | SnapsDiscardSnapNs string
  | FreeCaches
  | Start
  | Wait
  | WaitForWindow Window
  | PidForWindowID string
  | CloseWindowID string
  | Signal int
  | Wmctrl string
  | Display "execve_timing option"
  | PrintStartup duration
  | Encode "Execution list"

text \<open>
  What the collaborators answer during one trial. A Go result \<^verbatim>\<open>(v, err)\<close> is a pair
  whose second component is \<open>None\<close> for a nil error; a result \<^verbatim>\<open>err\<close> alone is an
  \<open>error option\<close>. \<open>elapsed\<close> is the value of \<^verbatim>\<open>time.Since(start)\<close>.
\<close>

record trial_env =
  prepare_result :: "error option"
  tempdir_result :: "error option"
  mkfifo_result :: "error option"
  openfifo_result :: "error option"
  trace_timings_result :: "execve_timing option \<times> error option"
  trace_exec_result :: "error option"
  stdout_log_result :: "error option"
  stderr_log_result :: "error option"
  discard_ns_result :: "error option"
  free_caches_result :: "error option"
  start_result :: "error option"
  wait_for_window_result :: "string list \<times> error option"
  pid_for_window_result :: "string \<Rightarrow> int \<times> error option"
  close_window_result :: "string \<Rightarrow> error option"
  signal_result :: "int \<Rightarrow> error option"
  wmctrl_result :: "string \<times> error option"
  restore_result :: "error option"
  elapsed :: duration

text \<open>What the collaborators answer during a whole run.\<close>

record run_env =
  output_result :: "error option"
  trials :: "nat \<Rightarrow> trial_env"

text \<open>
  The state of \<^verbatim>\<open>Execute\<close>: the global \<^verbatim>\<open>errs\<close>, \<^verbatim>\<open>outRes.Runs\<close>, the trace, the
  stack of deferred calls (the call deferred last is the head), and the local variables
  of the loop body.
\<close>

record state =
  errs :: "error list"
  outRes :: "Execution list"
  trace :: "event list"
  defers :: "event list"
  targetCmd :: "string list"
  slg :: "execve_timing option"
  straceErr :: "error option"
  err :: "error option"
  wids :: "string list"
  pids :: "int list"
  tryXToolClose :: bool
  tryWmctrl :: bool
  windowspec :: Window
  startup :: duration

text \<open>
  How a statement ends: control goes on to the next statement, the function returns an
  error, or the goroutine panics. \<open>ReturnNil\<close> is the \<^verbatim>\<open>return nil\<close> that ends
  \<^verbatim>\<open>Execute\<close>.
\<close>

datatype flow = Next | ReturnNil | ReturnErr error | Panic string

definition emit :: "event \<Rightarrow> state \<Rightarrow> state" where
  "emit e s = s\<lparr>trace := trace s @ [e]\<rparr>"

definition push_defer :: "event \<Rightarrow> state \<Rightarrow> state" where
  "push_defer e s = s\<lparr>defers := e # defers s\<rparr>"

text \<open>Statements in sequence: the first one that does not fall through ends the block.\<close>

fun seq :: "(state \<Rightarrow> flow \<times> state) list \<Rightarrow> state \<Rightarrow> flow \<times> state" where
  "seq [] s = (Next, s)"
| "seq (p # ps) s = (case p s of (Next, s') \<Rightarrow> seq ps s' | r \<Rightarrow> r)"

section \<open>Library functions\<close>

text \<open>\<^verbatim>\<open>strings.Contains\<close>.\<close>

fun has_prefix :: "string \<Rightarrow> string \<Rightarrow> bool" where
  "has_prefix [] s = True"
| "has_prefix (p # ps) [] = False"
| "has_prefix (p # ps) (c # cs) = (p = c \<and> has_prefix ps cs)"

fun Contains :: "string \<Rightarrow> string \<Rightarrow> bool" where
  "Contains [] sub = (sub = [])"
| "Contains (c # cs) sub = (has_prefix sub (c # cs) \<or> Contains cs sub)"

text \<open>
  \<^verbatim>\<open>filepath.Base\<close> on Unix: the empty path gives \<^verbatim>\<open>"."\<close>, trailing slashes are
  stripped, the part after the last slash is returned, and a path of slashes only gives
  \<^verbatim>\<open>"/"\<close>.
\<close>

definition Base :: "string \<Rightarrow> string" where
  "Base path =
     (if path = [] then ''.''
      else let stripped = rev (dropWhile (\<lambda>c. c = CHR ''/'') (rev path));
               elem = rev (takeWhile (\<lambda>c. c \<noteq> CHR ''/'') (rev stripped))
           in if elem = [] then ''/'' else elem)"

text \<open>The verb \<^verbatim>\<open>%d\<close> of \<^verbatim>\<open>fmt.Errorf\<close>.\<close>

fun show_nat :: "nat \<Rightarrow> string" where
  "show_nat n =
     (if n < 10 then [char_of (48 + n)]
      else show_nat (n div 10) @ [char_of (48 + n mod 10)])"

declare show_nat.simps [simp del]

definition show_int :: "int \<Rightarrow> string" where
  "show_int k = (if k < 0 then ''-'' @ show_nat (nat (- k)) else show_nat (nat k))"

section \<open>The helpers of \<^verbatim>\<open>main.go\<close>\<close>

text \<open>\<^verbatim>\<open>func logError(err error)\<close> and \<^verbatim>\<open>func resetErrors()\<close>.\<close>

definition logError :: "Command \<Rightarrow> error \<Rightarrow> state \<Rightarrow> state" where
  "logError c e s =
     (let s1 = s\<lparr>errs := errs s @ [e]\<rparr>
      in if ShowErrors c then emit (LogPrintln e) s1 else s1)"

definition resetErrors :: "state \<Rightarrow> state" where
  "resetErrors s = s\<lparr>errs := []\<rparr>"

text \<open>
  \<^verbatim>\<open>func wmctrlCloseWindow(name string) error\<close>: on failure the combined output of
  \<^verbatim>\<open>wmctrl -c name\<close> is logged and the error returned.
\<close>

definition wmctrlCloseWindow :: "trial_env \<Rightarrow> string \<Rightarrow> state \<Rightarrow> error option \<times> state" where
  "wmctrlCloseWindow env name s =
     (let s1 = emit (Wmctrl name) s
      in case wmctrl_result env of
           (out, Some e) \<Rightarrow> (Some e, emit (LogPrintln out) s1)
         | (out, None) \<Rightarrow> (None, s1))"

section \<open>One iteration of the loop of \<^verbatim>\<open>Execute\<close>\<close>

text \<open>
  The loop body, statement by statement. \<open>c\<close> is \<^verbatim>\<open>currentCmd\<close>, the receiver
  \<^verbatim>\<open>x\<close> is \<open>Run c\<close>, \<open>i\<close> is the index of the trial and \<open>env\<close> what the
  collaborators answer in it. The wiring of \<^verbatim>\<open>cmd.Stdin\<close>, \<^verbatim>\<open>cmd.Stdout\<close> and
  \<^verbatim>\<open>cmd.Stderr\<close> has no effect inside \<^verbatim>\<open>Execute\<close> and is left out; opening and
  closing the log files is kept.
\<close>

text \<open>Lines 144-150: the prepare script.\<close>

definition prepare_step :: "Command \<Rightarrow> trial_env \<Rightarrow> state \<Rightarrow> flow \<times> state" where
  "prepare_step c env s =
     (if PrepareScript (Run c) \<noteq> [] then
        let s1 = emit (RunScript (PrepareScript (Run c)) (PrepareScriptArgs (Run c))) s
        in case prepare_result env of
             Some e \<Rightarrow> (Next, logError c (''running prepare script: '' @ e) s1)
           | None \<Rightarrow> (Next, s1)
      else (Next, s))"

text \<open>Lines 152-162: \<^verbatim>\<open>targetCmd\<close> and the nil values of the variables declared here.\<close>

definition target_step :: "Command \<Rightarrow> state \<Rightarrow> flow \<times> state" where
  "target_step c s =
     (Next, s\<lparr>targetCmd := (if RunThroughSnap (Run c) then [''snap'', ''run''] @ Cmd (Run c)
                             else Cmd (Run c)),
              slg := None, straceErr := None\<rparr>)"

text \<open>
  Lines 163-203. With tracing: the temporary directory, the fifo, the sentinel writer,
  the reader goroutine and the traced command; each failure returns, after the
  \<^verbatim>\<open>defer\<close> statements passed so far. Without tracing: \<^verbatim>\<open>exec.Command\<close> on
  \<^verbatim>\<open>targetCmd[0]\<close>, which panics on an empty slice.
\<close>

definition tempdir_step :: "nat \<Rightarrow> trial_env \<Rightarrow> state \<Rightarrow> flow \<times> state" where
  "tempdir_step i env s =
     (let s1 = emit (TempDir i) s
      in case tempdir_result env of
           Some e \<Rightarrow> (ReturnErr e, s1)
         | None \<Rightarrow> (Next, push_defer (RemoveAll i) s1))"

definition mkfifo_step :: "nat \<Rightarrow> trial_env \<Rightarrow> state \<Rightarrow> flow \<times> state" where
  "mkfifo_step i env s =
     (let s1 = emit (Mkfifo i) s
      in case mkfifo_result env of
           Some e \<Rightarrow> (ReturnErr e, s1)
         | None \<Rightarrow> (Next, s1))"

definition openfifo_step :: "nat \<Rightarrow> trial_env \<Rightarrow> state \<Rightarrow> flow \<times> state" where
  "openfifo_step i env s =
     (let s1 = emit (OpenFifo i) s
      in case openfifo_result env of
           Some e \<Rightarrow> (ReturnErr e, s1)
         | None \<Rightarrow> (Next, push_defer (CloseFifo i) s1))"

definition reader_step :: "nat \<Rightarrow> state \<Rightarrow> flow \<times> state" where
  "reader_step i s = (Next, emit (GoReader i) s)"

definition trace_exec_step :: "nat \<Rightarrow> trial_env \<Rightarrow> state \<Rightarrow> flow \<times> state" where
  "trace_exec_step i env s =
     (let s1 = emit (TraceExecCommand i (targetCmd s)) s
      in case trace_exec_result env of
           Some e \<Rightarrow> (ReturnErr e, s1)
         | None \<Rightarrow> (Next, s1))"

definition exec_command_step :: "state \<Rightarrow> flow \<times> state" where
  "exec_command_step s =
     (case targetCmd s of
        [] \<Rightarrow> (Panic ''index out of range'', s)
      | prog # args \<Rightarrow> (Next, emit (ExecCommand prog args) s))"

definition command_step :: "Command \<Rightarrow> nat \<Rightarrow> trial_env \<Rightarrow> state \<Rightarrow> flow \<times> state" where
  "command_step c i env =
     (if \<not> NoTrace (Run c) then
        seq [tempdir_step i env, mkfifo_step i env, openfifo_step i env, reader_step i,
             trace_exec_step i env]
      else exec_command_step)"

text \<open>Lines 211-226: the log files of the child process.\<close>

definition log_step :: "string \<Rightarrow> error option \<Rightarrow> state \<Rightarrow> flow \<times> state" where
  "log_step path res s =
     (if path \<noteq> [] then
        let s1 = emit (OpenLog path) s
        in case res of
             Some e \<Rightarrow> (ReturnErr e, s1)
           | None \<Rightarrow> (Next, push_defer (CloseLog path) s1)
      else (Next, s))"

text \<open>Lines 228-237: discarding the snap namespace.\<close>

definition discard_step :: "Command \<Rightarrow> trial_env \<Rightarrow> state \<Rightarrow> flow \<times> state" where
  "discard_step c env s =
     (if DiscardSnapNs (Run c) then
        if \<not> RunThroughSnap (Run c) then
          (ReturnErr ''cannot use --discard-snap-ns without --use-snap-run'', s)
        else
          case Cmd (Run c) of
            [] \<Rightarrow> (Panic ''index out of range'', s)
          | name # rest \<Rightarrow>
              (let s1 = emit (SnapsDiscardSnapNs name) s
               in (case discard_ns_result env of
                     Some e \<Rightarrow> (ReturnErr e, s1)
                   | None \<Rightarrow> (Next, s1)))
      else (Next, s))"

text \<open>
  Lines 245-261: the window selector. \<open>None\<close> is the panic of \<^verbatim>\<open>x.Args.Cmd[0]\<close> on
  an empty command.
\<close>

definition resolve_windowspec :: "cmdRun \<Rightarrow> Window option" where
  "resolve_windowspec x =
     (if WindowClass x \<noteq> [] then Some \<lparr>Class = WindowClass x, Name = []\<rparr>
      else if WindowName x \<noteq> [] then Some \<lparr>Class = [], Name = WindowName x\<rparr>
      else case Cmd x of
             [] \<Rightarrow> None
           | prog # args \<Rightarrow> Some \<lparr>Class = Base prog, Name = []\<rparr>)"

text \<open>Lines 239-261.\<close>

definition windowspec_step :: "Command \<Rightarrow> state \<Rightarrow> flow \<times> state" where
  "windowspec_step c s =
     (let s1 = s\<lparr>tryXToolClose := True, tryWmctrl := False, wids := []\<rparr>
      in case resolve_windowspec (Run c) of
           None \<Rightarrow> (Panic ''index out of range'', s1)
         | Some w \<Rightarrow> (Next, s1\<lparr>windowspec := w\<rparr>))"

text \<open>Lines 263-268: freeing the caches; a failure returns.\<close>

definition free_caches_step :: "trial_env \<Rightarrow> state \<Rightarrow> flow \<times> state" where
  "free_caches_step env s =
     (let s1 = (emit FreeCaches s)\<lparr>err := free_caches_result env\<rparr>
      in case err s1 of
           Some e \<Rightarrow> (ReturnErr e, s1)
         | None \<Rightarrow> (Next, s1))"

text \<open>Lines 270-272: \<^verbatim>\<open>err = cmd.Start()\<close>; the variable is not read here.\<close>

definition start_step :: "trial_env \<Rightarrow> state \<Rightarrow> flow \<times> state" where
  "start_step env s = (Next, (emit Start s)\<lparr>err := start_result env\<rparr>)"

text \<open>Lines 274-289: waiting for the process or for its window, and the startup time.\<close>

definition wait_step :: "Command \<Rightarrow> trial_env \<Rightarrow> state \<Rightarrow> flow \<times> state" where
  "wait_step c env s =
     (let s2 =
            (if NoWindowWait (Run c) then emit Wait s
             else
               let s1 = (emit (WaitForWindow (windowspec s)) s)
                          \<lparr>wids := fst (wait_for_window_result env),
                           err := snd (wait_for_window_result env)\<rparr>
               in (case err s1 of
                     Some e \<Rightarrow>
                       (logError c (''waiting for window appearance: '' @ e) s1)
                         \<lparr>tryXToolClose := False\<rparr>
                   | None \<Rightarrow> s1))
      in (Next, s2\<lparr>startup := elapsed env\<rparr>))"

text \<open>
  Lines 295-303: the pids of the windows. \<open>i\<close> is the index of the first window of the
  list in \<^verbatim>\<open>wids\<close>; a failure ends the loop (\<^verbatim>\<open>break\<close>).
\<close>

fun resolve_pids :: "Command \<Rightarrow> trial_env \<Rightarrow> nat \<Rightarrow> string list \<Rightarrow> state \<Rightarrow> state" where
  "resolve_pids c env i [] s = s"
| "resolve_pids c env i (wid # rest) s =
     (let s1 = emit (PidForWindowID wid) s
      in case pid_for_window_result env wid of
           (pid, Some e) \<Rightarrow>
             (logError c (''getting pid for wid '' @ wid @ '': '' @ e) s1)\<lparr>tryWmctrl := True\<rparr>
         | (pid, None) \<Rightarrow>
             resolve_pids c env (Suc i) rest (s1\<lparr>pids := (pids s1)[i := pid]\<rparr>))"

text \<open>Lines 305-312: closing the windows.\<close>

fun close_windows :: "Command \<Rightarrow> trial_env \<Rightarrow> string list \<Rightarrow> state \<Rightarrow> state" where
  "close_windows c env [] s = s"
| "close_windows c env (wid # rest) s =
     (let s1 = (emit (CloseWindowID wid) s)\<lparr>err := close_window_result env wid\<rparr>
      in close_windows c env rest
           (case err s1 of
              Some e \<Rightarrow> (logError c (''closing window: '' @ e) s1)\<lparr>tryWmctrl := True\<rparr>
            | None \<Rightarrow> s1))"

text \<open>Lines 314-325: killing the processes.\<close>

fun kill_pids :: "Command \<Rightarrow> trial_env \<Rightarrow> int list \<Rightarrow> state \<Rightarrow> state" where
  "kill_pids c env [] s = s"
| "kill_pids c env (pid # rest) s =
     (let s1 = emit (Signal pid) s
      in kill_pids c env rest
           (case signal_result env pid of
              Some e \<Rightarrow>
                if \<not> Contains e ''process already finished'' then
                  (logError c (''killing window process pid '' @ show_int pid @ '': '' @ e) s1)
                    \<lparr>tryWmctrl := True\<rparr>
                else s1
            | None \<Rightarrow> s1))"

text \<open>Lines 293-326.\<close>

definition xtool_step :: "Command \<Rightarrow> trial_env \<Rightarrow> state \<Rightarrow> flow \<times> state" where
  "xtool_step c env s =
     (if tryXToolClose s then
        let s1 = s\<lparr>pids := replicate (length (wids s)) 0\<rparr>;
            s2 = resolve_pids c env 0 (wids s1) s1;
            s3 = close_windows c env (wids s2) s2;
            s4 = kill_pids c env (pids s3) s3
        in (Next, s4)
      else (Next, s))"

text \<open>Lines 328-333: the fallback through \<^verbatim>\<open>wmctrl\<close>.\<close>

definition wmctrl_step :: "Command \<Rightarrow> trial_env \<Rightarrow> state \<Rightarrow> flow \<times> state" where
  "wmctrl_step c env s =
     (if tryWmctrl s then
        case wmctrlCloseWindow env (WindowName (Run c)) s of
          (r, s1) \<Rightarrow>
            (let s2 = s1\<lparr>err := r\<rparr>
             in (case err s2 of
                   Some e \<Rightarrow> (Next, logError c (''closing window with wmctrl: '' @ e) s2)
                 | None \<Rightarrow> (Next, s2)))
      else (Next, s))"

text \<open>
  Lines 335-352: closing the sentinel writer, waiting for the reader and reading its
  results, which the goroutine wrote before it closed the channel.
\<close>

definition collect_step :: "Command \<Rightarrow> nat \<Rightarrow> trial_env \<Rightarrow> state \<Rightarrow> flow \<times> state" where
  "collect_step c i env s =
     (if \<not> NoTrace (Run c) then
        let s1 = emit (AwaitDone i) (emit (CloseFifo i) s);
            s2 = s1\<lparr>slg := fst (trace_timings_result env),
                    straceErr := snd (trace_timings_result env)\<rparr>
        in case straceErr s2 of
             None \<Rightarrow>
               if \<not> JSONOutput (Run c) then (Next, emit (Display (slg s2)) s2) else (Next, s2)
           | Some e \<Rightarrow> (Next, logError c (''cannot extract runtime data: '' @ e) s2)
      else (Next, s))"

text \<open>Lines 354-359: the restore script.\<close>

definition restore_step :: "Command \<Rightarrow> trial_env \<Rightarrow> state \<Rightarrow> flow \<times> state" where
  "restore_step c env s =
     (if RestoreScript (Run c) \<noteq> [] then
        let s1 = emit (RunScript (RestoreScript (Run c)) (RestoreScriptArgs (Run c))) s
        in case restore_result env of
             Some e \<Rightarrow> (Next, logError c (''running restore script: '' @ e) s1)
           | None \<Rightarrow> (Next, s1)
      else (Next, s))"

text \<open>
  Lines 361-381: the record of the trial. \<^verbatim>\<open>slg.TotalTime\<close> on a nil \<^verbatim>\<open>slg\<close>
  panics.
\<close>

definition record_step :: "Command \<Rightarrow> state \<Rightarrow> flow \<times> state" where
  "record_step c s =
     (let run = \<lparr>ExecveTiming = slg s, TimeToDisplay = startup s, TimeToRun = 0,
                 Errors = errs s\<rparr>
      in case (if NoTrace (Run c) then Some (startup s) else map_option TotalTime (slg s)) of
           None \<Rightarrow> (Panic ''nil pointer dereference'', s)
         | Some t \<Rightarrow>
             let s1 = s\<lparr>outRes := outRes s @ [run\<lparr>TimeToRun := t\<rparr>]\<rparr>;
                 s2 = (if \<not> JSONOutput (Run c) then emit (PrintStartup (startup s1)) s1 else s1)
             in (Next, resetErrors s2))"

text \<open>
  The three parts of a trial: everything up to \<^verbatim>\<open>cmd.Start()\<close>, the wait and the
  termination cascade, and the collection of the results.
\<close>

definition launch :: "Command \<Rightarrow> nat \<Rightarrow> trial_env \<Rightarrow> state \<Rightarrow> flow \<times> state" where
  "launch c i env =
     seq [prepare_step c env, target_step c, command_step c i env,
          log_step (ProgramStdoutLog (Run c)) (stdout_log_result env),
          log_step (ProgramStderrLog (Run c)) (stderr_log_result env),
          discard_step c env, windowspec_step c, free_caches_step env, start_step env]"

definition cascade :: "Command \<Rightarrow> trial_env \<Rightarrow> state \<Rightarrow> flow \<times> state" where
  "cascade c env = seq [wait_step c env, xtool_step c env, wmctrl_step c env]"

definition finish :: "Command \<Rightarrow> nat \<Rightarrow> trial_env \<Rightarrow> state \<Rightarrow> flow \<times> state" where
  "finish c i env = seq [collect_step c i env, restore_step c env, record_step c]"

definition trial :: "Command \<Rightarrow> nat \<Rightarrow> trial_env \<Rightarrow> state \<Rightarrow> flow \<times> state" where
  "trial c i env = seq [launch c i env, cascade c env, finish c i env]"

section \<open>\<^verbatim>\<open>func (x *cmdRun) Execute(args []string) error\<close>\<close>

text \<open>
  Lines 143-382: the loop, and its counter of type \<^verbatim>\<open>uint\<close>; the bound
  \<^verbatim>\<open>1+currentCmd.AdditionalIterations\<close> is computed in that type.
\<close>

function loop :: "Command \<Rightarrow> run_env \<Rightarrow> 64 word \<Rightarrow> state \<Rightarrow> flow \<times> state" where
  "loop c env i s =
     (if i < 1 + AdditionalIterations c then
        case trial c (unat i) (trials env (unat i)) s of
          (Next, s') \<Rightarrow> loop c env (i + 1) s'
        | r \<Rightarrow> r
      else (Next, s))"
  by pat_completeness auto
termination
proof (relation "measure (\<lambda>(c, env, i, s). unat (1 + AdditionalIterations c) - unat i)")
  show "wf (measure (\<lambda>(c, env, i, s). unat (1 + AdditionalIterations c) - unat i))"
    by simp
next
  fix c :: Command and env :: run_env and i :: "64 word" and s x2 :: state
  assume "i < 1 + AdditionalIterations c"
  then show "((c, env, i + 1, x2), (c, env, i, s))
      \<in> measure (\<lambda>(c, env, i, s). unat (1 + AdditionalIterations c) - unat i)"
    by simp unat_arith
qed

text \<open>Lines 130-139: the output file.\<close>

definition output_step :: "Command \<Rightarrow> run_env \<Rightarrow> state \<Rightarrow> flow \<times> state" where
  "output_step c env s =
     (if OutputFile (Run c) \<noteq> [] then
        let s1 = emit (OpenOutput (OutputFile (Run c))) s
        in case output_result env of
             Some e \<Rightarrow> (ReturnErr e, s1)
           | None \<Rightarrow> (Next, s1)
      else (Next, s))"

text \<open>Lines 384-388: the JSON output and \<^verbatim>\<open>return nil\<close>.\<close>

definition encode_step :: "Command \<Rightarrow> state \<Rightarrow> flow \<times> state" where
  "encode_step c s =
     (ReturnNil, if JSONOutput (Run c) then emit (Encode (outRes s)) s else s)"

text \<open>
  When the function returns or panics, the deferred calls run, the one deferred last
  first.
\<close>

definition run_defers :: "flow \<times> state \<Rightarrow> flow \<times> state" where
  "run_defers r = (fst r, (snd r)\<lparr>trace := trace (snd r) @ defers (snd r), defers := []\<rparr>)"

text \<open>The state in which \<^verbatim>\<open>Execute\<close> starts: no errors, no runs, nothing deferred.\<close>

definition init :: state where
  "init = \<lparr>errs = [], outRes = [], trace = [], defers = [], targetCmd = [], slg = None,
           straceErr = None, err = None, wids = [], pids = [], tryXToolClose = True,
           tryWmctrl = False, windowspec = \<lparr>Class = [], Name = []\<rparr>, startup = 0\<rparr>"

definition body :: "Command \<Rightarrow> run_env \<Rightarrow> state \<Rightarrow> flow \<times> state" where
  "body c env = seq [output_step c env, loop c env 0, encode_step c]"

definition Execute :: "Command \<Rightarrow> run_env \<Rightarrow> flow \<times> state" where
  "Execute c env = run_defers (body c env init)"

section \<open>Observing a run\<close>

text \<open>The events emitted between two states of the same run.\<close>

definition emitted :: "state \<Rightarrow> state \<Rightarrow> event list" where
  "emitted s s' = drop (length (trace s)) (trace s')"

text \<open>The pids signalled, the windows whose pid was asked for, and so on, in order.\<close>

fun signals :: "event list \<Rightarrow> int list" where
  "signals [] = []"
| "signals (Signal p # es) = p # signals es"
| "signals (e # es) = signals es"

fun pid_lookups :: "event list \<Rightarrow> string list" where
  "pid_lookups [] = []"
| "pid_lookups (PidForWindowID w # es) = w # pid_lookups es"
| "pid_lookups (e # es) = pid_lookups es"

fun window_closes :: "event list \<Rightarrow> string list" where
  "window_closes [] = []"
| "window_closes (CloseWindowID w # es) = w # window_closes es"
| "window_closes (e # es) = window_closes es"

fun wmctrl_calls :: "event list \<Rightarrow> string list" where
  "wmctrl_calls [] = []"
| "wmctrl_calls (Wmctrl n # es) = n # wmctrl_calls es"
| "wmctrl_calls (e # es) = wmctrl_calls es"

fun discards :: "event list \<Rightarrow> string list" where
  "discards [] = []"
| "discards (SnapsDiscardSnapNs n # es) = n # discards es"
| "discards (e # es) = discards es"

text \<open>The events that each part of a trial can emit.\<close>

fun launch_event :: "event \<Rightarrow> bool" where
  "launch_event (LogPrintln m) = True"
| "launch_event (RunScript p a) = True"
| "launch_event (TempDir i) = True"
| "launch_event (Mkfifo i) = True"
| "launch_event (OpenFifo i) = True"
| "launch_event (GoReader i) = True"
| "launch_event (TraceExecCommand i a) = True"
| "launch_event (ExecCommand p a) = True"
| "launch_event (OpenLog p) = True"
| "launch_event (SnapsDiscardSnapNs n) = True"
| "launch_event FreeCaches = True"
| "launch_event Start = True"
| "launch_event e = False"

fun cascade_event :: "event \<Rightarrow> bool" where
  "cascade_event (LogPrintln m) = True"
| "cascade_event Wait = True"
| "cascade_event (WaitForWindow w) = True"
| "cascade_event (PidForWindowID w) = True"
| "cascade_event (CloseWindowID w) = True"
| "cascade_event (Signal p) = True"
| "cascade_event (Wmctrl n) = True"
| "cascade_event e = False"

fun finish_event :: "event \<Rightarrow> bool" where
  "finish_event (LogPrintln m) = True"
| "finish_event (CloseFifo i) = True"
| "finish_event (AwaitDone i) = True"
| "finish_event (Display t) = True"
| "finish_event (RunScript p a) = True"
| "finish_event (PrintStartup d) = True"
| "finish_event e = False"

text \<open>The calls that a \<^verbatim>\<open>defer\<close> statement of the loop body registers.\<close>

fun deferred_event :: "event \<Rightarrow> bool" where
  "deferred_event (RemoveAll i) = True"
| "deferred_event (CloseFifo i) = True"
| "deferred_event (CloseLog p) = True"
| "deferred_event e = False"

text \<open>
  A statement \<open>f\<close> only appends events that satisfy \<open>Q\<close> to the trace, and only pushes
  calls that satisfy \<open>D\<close> on the stack of deferred calls.
\<close>

definition appends :: "(event \<Rightarrow> bool) \<Rightarrow> (state \<Rightarrow> flow \<times> state) \<Rightarrow> bool" where
  "appends Q f = (\<forall>s. \<exists>evs. trace (snd (f s)) = trace s @ evs \<and> list_all Q evs)"

definition pushes :: "(event \<Rightarrow> bool) \<Rightarrow> (state \<Rightarrow> flow \<times> state) \<Rightarrow> bool" where
  "pushes D f = (\<forall>s. \<exists>ds. defers (snd (f s)) = ds @ defers s \<and> list_all D ds)"

text \<open>
  A statement that cannot tell what the variable \<^verbatim>\<open>err\<close> holds when it starts: it
  ends the same way and leaves the same state, \<^verbatim>\<open>err\<close> apart.
\<close>

definition err_blind :: "(state \<Rightarrow> flow \<times> state) \<Rightarrow> bool" where
  "err_blind f = (\<forall>s a. \<exists>a'. f (s\<lparr>err := a\<rparr>) = (fst (f s), (snd (f s))\<lparr>err := a'\<rparr>))"

text \<open>
  What a caller of \<^verbatim>\<open>Execute\<close> can observe of a trial: how it ends, the errors, the
  results, the trace and the deferred calls; not the local variables.
\<close>

definition observable ::
  "flow \<times> state \<Rightarrow> flow \<times> error list \<times> Execution list \<times> event list \<times> event list" where
  "observable r = (fst r, errs (snd r), outRes (snd r), trace (snd r), defers (snd r))"

text \<open>The statements of a trial before line 228, and those after line 237.\<close>

definition setup_steps :: "Command \<Rightarrow> nat \<Rightarrow> trial_env \<Rightarrow> (state \<Rightarrow> flow \<times> state) list" where
  "setup_steps c i env =
     [prepare_step c env, target_step c, command_step c i env,
      log_step (ProgramStdoutLog (Run c)) (stdout_log_result env),
      log_step (ProgramStderrLog (Run c)) (stderr_log_result env)]"

definition tail_steps :: "Command \<Rightarrow> nat \<Rightarrow> trial_env \<Rightarrow> (state \<Rightarrow> flow \<times> state) list" where
  "tail_steps c i env =
     [windowspec_step c, free_caches_step env, start_step env, cascade c env, finish c i env]"

text \<open>
  Everything that can return before line 228 succeeds: the trace channel and the traced
  command (when tracing), and the log files (when configured).
\<close>

definition setup_ok :: "Command \<Rightarrow> trial_env \<Rightarrow> bool" where
  "setup_ok c env =
     ((NoTrace (Run c) \<or> (tempdir_result env = None \<and> mkfifo_result env = None
         \<and> openfifo_result env = None \<and> trace_exec_result env = None))
      \<and> (ProgramStdoutLog (Run c) = [] \<or> stdout_log_result env = None)
      \<and> (ProgramStderrLog (Run c) = [] \<or> stderr_log_result env = None))"

subsection \<open>The reader goroutine\<close>

text \<open>
  \<open>precedes a b t\<close>: in \<open>t\<close>, the first \<open>b\<close>, if there is one, comes after an \<open>a\<close>.
\<close>

fun precedes :: "event \<Rightarrow> event \<Rightarrow> event list \<Rightarrow> bool" where
  "precedes a b [] = True"
| "precedes a b (x # xs) = (if x = a then True else if x = b then False else precedes a b xs)"

fun reader_done :: "event \<Rightarrow> bool" where
  "reader_done (ReaderDone i) = True"
| "reader_done e = False"

fun removal :: "event \<Rightarrow> bool" where
  "removal (RemoveAll i) = True"
| "removal e = False"

text \<open>The events of the control thread in a trace of both threads.\<close>

definition control :: "event list \<Rightarrow> event list" where
  "control t = filter (\<lambda>e. \<not> reader_done e) t"

text \<open>
  The goroutine of trial \<open>i\<close> closes \<^verbatim>\<open>doneCh\<close> only after it was started, and the
  receive \<^verbatim>\<open><-doneCh\<close> of the control thread returns only after the channel was closed.
\<close>

fun reader_rule :: "event list \<Rightarrow> event \<Rightarrow> bool" where
  "reader_rule t (ReaderDone i) = precedes (GoReader i) (ReaderDone i) t"
| "reader_rule t (AwaitDone i) = precedes (ReaderDone i) (AwaitDone i) t"
| "reader_rule t e = True"

definition reader_ok :: "event list \<Rightarrow> bool" where
  "reader_ok t = list_all (reader_rule t) t"

text \<open>
  \<open>t\<close> is an execution of the run: the control thread does what \<^verbatim>\<open>Execute\<close> does,
  and the completion signals of the readers are interleaved in any way the channel allows
  (a reader that has not finished when the control thread ends has no event).
\<close>

definition execution :: "Command \<Rightarrow> run_env \<Rightarrow> event list \<Rightarrow> bool" where
  "execution c env t = (control t = trace (snd (Execute c env)) \<and> reader_ok t)"

section \<open>Sample inputs\<close>

text \<open>
  The command \<^verbatim>\<open>etrace run --json sample-app\<close>, traced, in an environment where every
  collaborator succeeds and the application shows two windows.
\<close>

definition sample_run :: cmdRun where
  "sample_run = \<lparr>WindowName = [], PrepareScript = [], PrepareScriptArgs = [],
     RestoreScript = [], RestoreScriptArgs = [], WindowClass = [], NoTrace = False,
     RunThroughSnap = False, DiscardSnapNs = False, ProgramStdoutLog = [],
     ProgramStderrLog = [], JSONOutput = True, OutputFile = [], NoWindowWait = False,
     Cmd = [''sample-app'']\<rparr>"

definition sample_cmd :: Command where
  "sample_cmd = \<lparr>Run = sample_run, ShowErrors = False, AdditionalIterations = 0\<rparr>"

definition sample_env :: trial_env where
  "sample_env = \<lparr>prepare_result = None, tempdir_result = None, mkfifo_result = None,
     openfifo_result = None, trace_timings_result = (Some \<lparr>TotalTime = 70\<rparr>, None),
     trace_exec_result = None, stdout_log_result = None, stderr_log_result = None,
     discard_ns_result = None, free_caches_result = None, start_result = None,
     wait_for_window_result = ([''w1'', ''w2''], None),
     pid_for_window_result = (\<lambda>w. (if w = ''w1'' then 11 else 22, None)),
     close_window_result = (\<lambda>w. None), signal_result = (\<lambda>p. None),
     wmctrl_result = ([], None), restore_result = None, elapsed = 50\<rparr>"

text \<open>The command \<^verbatim>\<open>etrace run --use-snap-run --discard-snap-ns chromium\<close>.\<close>

definition snap_cmd :: Command where
  "snap_cmd = sample_cmd\<lparr>Run := sample_run\<lparr>RunThroughSnap := True, DiscardSnapNs := True,
     Cmd := [''chromium'']\<rparr>\<rparr>"

text \<open>The command \<^verbatim>\<open>etrace run --use-snap-run /snap/bin/chromium\<close>.\<close>

definition path_cmd :: Command where
  "path_cmd = sample_cmd\<lparr>Run := sample_run\<lparr>RunThroughSnap := True,
     Cmd := [''/snap/bin/chromium'']\<rparr>\<rparr>"

definition all_trials :: "trial_env \<Rightarrow> run_env" where
  "all_trials env = \<lparr>output_result = None, trials = (\<lambda>i. env)\<rparr>"

text \<open>
  An execution of the sample run, in which the reader finishes while the window is awaited;
  and an execution of the run in which \<^verbatim>\<open>strace.TraceExecCommand\<close> fails, where the
  reader finishes after \<^verbatim>\<open>Execute\<close> has returned.
\<close>

definition sample_execution :: "event list" where
  "sample_execution =
     [TempDir 0, Mkfifo 0, OpenFifo 0, GoReader 0, TraceExecCommand 0 [''sample-app''],
      FreeCaches, Start, WaitForWindow \<lparr>Class = ''sample-app'', Name = []\<rparr>,
      PidForWindowID ''w1'', PidForWindowID ''w2'', CloseWindowID ''w1'',
      CloseWindowID ''w2'', Signal 11, Signal 22, CloseFifo 0, ReaderDone 0, AwaitDone 0,
      Encode [\<lparr>ExecveTiming = Some \<lparr>TotalTime = 70\<rparr>, TimeToDisplay = 50,
                TimeToRun = 70, Errors = []\<rparr>],
      CloseFifo 0, RemoveAll 0]"

definition aborted_execution :: "event list" where
  "aborted_execution =
     [TempDir 0, Mkfifo 0, OpenFifo 0, GoReader 0, TraceExecCommand 0 [''sample-app''],
      CloseFifo 0, RemoveAll 0, ReaderDone 0]"

section \<open>Basic facts\<close>

declare loop.simps [simp del]

declare seq.simps(2) [simp del]

lemmas step_defs = prepare_step_def target_step_def command_step_def tempdir_step_def
  mkfifo_step_def openfifo_step_def reader_step_def trace_exec_step_def exec_command_step_def
  log_step_def discard_step_def windowspec_step_def free_caches_step_def
  start_step_def wait_step_def xtool_step_def wmctrl_step_def wmctrlCloseWindow_def
  collect_step_def restore_step_def record_step_def output_step_def encode_step_def
  emit_def push_defer_def logError_def resetErrors_def

lemmas part_defs = launch_def cascade_def finish_def trial_def

lemmas run_defs = run_defers_def init_def body_def Execute_def

lemmas sample_defs = sample_run_def sample_cmd_def sample_env_def all_trials_def snap_cmd_def
  sample_execution_def aborted_execution_def path_cmd_def

subsection \<open>Sequences of statements\<close>

lemma seq_Cons_Next:
  "seq (p # ps) s = (Next, s') \<longleftrightarrow> (\<exists>s1. p s = (Next, s1) \<and> seq ps s1 = (Next, s'))"
  by (cases "p s"; cases "fst (p s)") (auto simp: seq.simps(2))

lemma seq_single [simp]: "seq [p] s = p s"
  by (cases "p s"; cases "fst (p s)") (auto simp: seq.simps(2))

lemma seq_stops: "fst (p s) \<noteq> Next \<Longrightarrow> seq (p # ps) s = p s"
  by (cases "p s"; cases "fst (p s)") (auto simp: seq.simps(2))

lemma seq_goes: "p s = (Next, s1) \<Longrightarrow> seq (p # ps) s = seq ps s1"
  by (simp add: seq.simps(2))

lemma appends_seq:
  assumes "\<And>p. p \<in> set ps \<Longrightarrow> appends Q p"
  shows "appends Q (seq ps)"
  using assms
proof (induction ps)
  case Nil
  show ?case by (simp add: appends_def)
next
  case (Cons p ps)
  have p: "appends Q p" and rest: "appends Q (seq ps)"
    using Cons by simp_all
  show ?case
    unfolding appends_def
  proof
    fix s
    obtain e1 where e1: "trace (snd (p s)) = trace s @ e1" "list_all Q e1"
      using p unfolding appends_def by blast
    show "\<exists>evs. trace (snd (seq (p # ps) s)) = trace s @ evs \<and> list_all Q evs"
    proof (cases "fst (p s) = Next")
      case True
      then obtain s1 where ps: "p s = (Next, s1)"
        by (cases "p s") auto
      obtain e2 where e2: "trace (snd (seq ps s1)) = trace s1 @ e2" "list_all Q e2"
        using rest unfolding appends_def by blast
      show ?thesis
        using e1 e2 ps by (intro exI [of _ "e1 @ e2"]) (simp add: seq_goes)
    next
      case False
      then show ?thesis
        using e1 by (auto simp: seq_stops)
    qed
  qed
qed

lemma appends_mono: "appends Q f \<Longrightarrow> (\<And>e. Q e \<Longrightarrow> R e) \<Longrightarrow> appends R f"
  unfolding appends_def by (metis (mono_tags, lifting) list_all_iff)

lemma appendsI:
  "(\<And>s. \<exists>evs. trace (snd (f s)) = trace s @ evs \<and> list_all Q evs) \<Longrightarrow> appends Q f"
  by (simp add: appends_def)

lemma appends_emitted:
  assumes "appends Q f"
  shows "trace (snd (f s)) = trace s @ emitted s (snd (f s))"
    and "list_all Q (emitted s (snd (f s)))"
  using assms unfolding appends_def emitted_def by (metis append_eq_conv_conj)+


subsection \<open>The three loops of the cascade\<close>

lemma resolve_pids_shape:
  "resolve_pids c env i ws s =
     s\<lparr>errs := errs (resolve_pids c env i ws s), trace := trace (resolve_pids c env i ws s),
       pids := pids (resolve_pids c env i ws s),
       tryWmctrl := tryWmctrl (resolve_pids c env i ws s)\<rparr>"
proof (induction ws arbitrary: i s)
  case Nil
  show ?case by simp
next
  case (Cons wid rest)
  obtain pid r where res: "pid_for_window_result env wid = (pid, r)"
    by (cases "pid_for_window_result env wid")
  show ?case
  proof (cases r)
    case (Some e)
    with res show ?thesis
      by (simp add: logError_def emit_def Let_def)
  next
    case None
    define s1 where "s1 = (emit (PidForWindowID wid) s)\<lparr>pids := (pids s)[i := pid]\<rparr>"
    have step: "resolve_pids c env i (wid # rest) s = resolve_pids c env (Suc i) rest s1"
      using res None by (simp add: s1_def emit_def Let_def)
    have "resolve_pids c env (Suc i) rest s1 =
        s1\<lparr>errs := errs (resolve_pids c env (Suc i) rest s1),
           trace := trace (resolve_pids c env (Suc i) rest s1),
           pids := pids (resolve_pids c env (Suc i) rest s1),
           tryWmctrl := tryWmctrl (resolve_pids c env (Suc i) rest s1)\<rparr>"
      by (rule Cons.IH)
    also have "\<dots> = s\<lparr>errs := errs (resolve_pids c env (Suc i) rest s1),
           trace := trace (resolve_pids c env (Suc i) rest s1),
           pids := pids (resolve_pids c env (Suc i) rest s1),
           tryWmctrl := tryWmctrl (resolve_pids c env (Suc i) rest s1)\<rparr>"
      by (simp add: s1_def emit_def)
    finally show ?thesis
      unfolding step .
  qed
qed

lemma resolve_pids_frame:
  "outRes (resolve_pids c env i ws s) = outRes s"
  "defers (resolve_pids c env i ws s) = defers s"
  "startup (resolve_pids c env i ws s) = startup s"
  "wids (resolve_pids c env i ws s) = wids s"
  "err (resolve_pids c env i ws s) = err s"
  by (subst resolve_pids_shape, simp)+


lemma close_windows_shape:
  "close_windows c env ws s =
     s\<lparr>errs := errs (close_windows c env ws s), trace := trace (close_windows c env ws s),
       err := err (close_windows c env ws s),
       tryWmctrl := tryWmctrl (close_windows c env ws s)\<rparr>"
proof (induction ws arbitrary: s)
  case Nil
  show ?case by simp
next
  case (Cons wid rest)
  define s1 where "s1 = (case close_window_result env wid of
       Some e \<Rightarrow> (logError c (''closing window: '' @ e)
                    ((emit (CloseWindowID wid) s)\<lparr>err := close_window_result env wid\<rparr>))
                   \<lparr>tryWmctrl := True\<rparr>
     | None \<Rightarrow> (emit (CloseWindowID wid) s)\<lparr>err := close_window_result env wid\<rparr>)"
  have step: "close_windows c env (wid # rest) s = close_windows c env rest s1"
    by (simp add: s1_def Let_def)
  have "close_windows c env rest s1 =
      s1\<lparr>errs := errs (close_windows c env rest s1),
         trace := trace (close_windows c env rest s1),
         err := err (close_windows c env rest s1),
         tryWmctrl := tryWmctrl (close_windows c env rest s1)\<rparr>"
    by (rule Cons.IH)
  also have "\<dots> = s\<lparr>errs := errs (close_windows c env rest s1),
         trace := trace (close_windows c env rest s1),
         err := err (close_windows c env rest s1),
         tryWmctrl := tryWmctrl (close_windows c env rest s1)\<rparr>"
    by (simp add: s1_def emit_def logError_def Let_def split: option.splits)
  finally show ?case
    unfolding step .
qed

lemma close_windows_frame:
  "outRes (close_windows c env ws s) = outRes s"
  "defers (close_windows c env ws s) = defers s"
  "startup (close_windows c env ws s) = startup s"
  "wids (close_windows c env ws s) = wids s"
  "pids (close_windows c env ws s) = pids s"
  by (subst close_windows_shape, simp)+

lemma kill_pids_shape:
  "kill_pids c env ps s =
     s\<lparr>errs := errs (kill_pids c env ps s), trace := trace (kill_pids c env ps s),
       tryWmctrl := tryWmctrl (kill_pids c env ps s)\<rparr>"
proof (induction ps arbitrary: s)
  case Nil
  show ?case by simp
next
  case (Cons pid rest)
  define s1 where "s1 = (case signal_result env pid of
       Some e \<Rightarrow>
         if \<not> Contains e ''process already finished'' then
           (logError c (''killing window process pid '' @ show_int pid @ '': '' @ e)
              (emit (Signal pid) s))\<lparr>tryWmctrl := True\<rparr>
         else emit (Signal pid) s
     | None \<Rightarrow> emit (Signal pid) s)"
  have step: "kill_pids c env (pid # rest) s = kill_pids c env rest s1"
    by (simp add: s1_def Let_def)
  have "kill_pids c env rest s1 =
      s1\<lparr>errs := errs (kill_pids c env rest s1), trace := trace (kill_pids c env rest s1),
         tryWmctrl := tryWmctrl (kill_pids c env rest s1)\<rparr>"
    by (rule Cons.IH)
  also have "\<dots> = s\<lparr>errs := errs (kill_pids c env rest s1),
         trace := trace (kill_pids c env rest s1),
         tryWmctrl := tryWmctrl (kill_pids c env rest s1)\<rparr>"
    by (simp add: s1_def emit_def logError_def Let_def split: option.splits)
  finally show ?case
    unfolding step .
qed

lemma kill_pids_frame:
  "outRes (kill_pids c env ps s) = outRes s"
  "defers (kill_pids c env ps s) = defers s"
  "startup (kill_pids c env ps s) = startup s"
  "wids (kill_pids c env ps s) = wids s"
  "pids (kill_pids c env ps s) = pids s"
  "err (kill_pids c env ps s) = err s"
  by (subst kill_pids_shape, simp)+

lemma resolve_pids_trace:
  "\<exists>evs. trace (resolve_pids c env i ws s) = trace s @ evs \<and> list_all cascade_event evs"
proof (induction ws arbitrary: i s)
  case Nil
  show ?case by simp
next
  case (Cons wid rest)
  obtain pid r where res: "pid_for_window_result env wid = (pid, r)"
    by (cases "pid_for_window_result env wid")
  show ?case
  proof (cases r)
    case (Some e)
    with res show ?thesis
      by (simp add: logError_def emit_def Let_def)
  next
    case None
    define s1 where "s1 = (emit (PidForWindowID wid) s)\<lparr>pids := (pids s)[i := pid]\<rparr>"
    have step: "resolve_pids c env i (wid # rest) s = resolve_pids c env (Suc i) rest s1"
      using res None by (simp add: s1_def emit_def Let_def)
    obtain evs where "trace (resolve_pids c env (Suc i) rest s1) = trace s1 @ evs"
        "list_all cascade_event evs"
      using Cons.IH by blast
    then show ?thesis
      unfolding step by (intro exI [of _ "PidForWindowID wid # evs"]) (simp add: s1_def emit_def)
  qed
qed

lemma close_windows_trace:
  "\<exists>evs. trace (close_windows c env ws s) = trace s @ evs \<and> list_all cascade_event evs"
proof (induction ws arbitrary: s)
  case Nil
  show ?case by simp
next
  case (Cons wid rest)
  define s1 where "s1 = (case close_window_result env wid of
       Some e \<Rightarrow> (logError c (''closing window: '' @ e)
                    ((emit (CloseWindowID wid) s)\<lparr>err := close_window_result env wid\<rparr>))
                   \<lparr>tryWmctrl := True\<rparr>
     | None \<Rightarrow> (emit (CloseWindowID wid) s)\<lparr>err := close_window_result env wid\<rparr>)"
  have step: "close_windows c env (wid # rest) s = close_windows c env rest s1"
    by (simp add: s1_def Let_def)
  have s1: "\<exists>e1. trace s1 = trace s @ e1 \<and> list_all cascade_event e1"
    by (simp add: s1_def emit_def logError_def Let_def split: option.splits)
  then obtain e1 where e1: "trace s1 = trace s @ e1" "list_all cascade_event e1"
    by blast
  obtain evs where "trace (close_windows c env rest s1) = trace s1 @ evs"
      "list_all cascade_event evs"
    using Cons.IH by blast
  then show ?case
    unfolding step using e1 by (intro exI [of _ "e1 @ evs"]) simp
qed

lemma kill_pids_trace:
  "\<exists>evs. trace (kill_pids c env ps s) = trace s @ evs \<and> list_all cascade_event evs"
proof (induction ps arbitrary: s)
  case Nil
  show ?case by simp
next
  case (Cons pid rest)
  define s1 where "s1 = (case signal_result env pid of
       Some e \<Rightarrow>
         if \<not> Contains e ''process already finished'' then
           (logError c (''killing window process pid '' @ show_int pid @ '': '' @ e)
              (emit (Signal pid) s))\<lparr>tryWmctrl := True\<rparr>
         else emit (Signal pid) s
     | None \<Rightarrow> emit (Signal pid) s)"
  have step: "kill_pids c env (pid # rest) s = kill_pids c env rest s1"
    by (simp add: s1_def Let_def)
  have "\<exists>e1. trace s1 = trace s @ e1 \<and> list_all cascade_event e1"
    by (simp add: s1_def emit_def logError_def Let_def split: option.splits)
  then obtain e1 where e1: "trace s1 = trace s @ e1" "list_all cascade_event e1"
    by blast
  obtain evs where "trace (kill_pids c env rest s1) = trace s1 @ evs"
      "list_all cascade_event evs"
    using Cons.IH by blast
  then show ?case
    unfolding step using e1 by (intro exI [of _ "e1 @ evs"]) simp
qed


subsection \<open>What each part of a trial emits and defers\<close>

lemma launch_appends: "appends launch_event (launch c i env)"
proof -
  have "appends launch_event (prepare_step c env)"
    by (rule appendsI) (simp add: step_defs Let_def split: option.splits)
  moreover have "appends launch_event (target_step c)"
    by (rule appendsI) (simp add: step_defs)
  moreover have "appends launch_event (command_step c i env)"
  proof (cases "NoTrace (Run c)")
    case True
    then show ?thesis
      by (intro appendsI) (simp add: step_defs split: list.splits)
  next
    case False
    have "appends launch_event (seq [tempdir_step i env, mkfifo_step i env,
        openfifo_step i env, reader_step i, trace_exec_step i env])"
      by (rule appends_seq) (auto intro!: appendsI simp: step_defs Let_def split: option.splits)
    with False show ?thesis
      by (simp add: command_step_def)
  qed
  moreover have "appends launch_event (log_step path res)" for path res
    by (rule appendsI) (simp add: step_defs Let_def split: option.splits)
  moreover have "appends launch_event (discard_step c env)"
    by (rule appendsI) (simp add: step_defs Let_def split: option.splits list.splits)
  moreover have "appends launch_event (windowspec_step c)"
    by (rule appendsI) (simp add: step_defs Let_def split: option.splits)
  moreover have "appends launch_event (free_caches_step env)"
    by (rule appendsI) (simp add: step_defs Let_def split: option.splits)
  moreover have "appends launch_event (start_step env)"
    by (rule appendsI) (simp add: step_defs)
  ultimately show ?thesis
    unfolding launch_def by (intro appends_seq) auto
qed

lemma cascade_appends: "appends cascade_event (cascade c env)"
proof -
  have "appends cascade_event (wait_step c env)"
    by (rule appendsI) (simp add: step_defs Let_def split: option.splits)
  moreover have "appends cascade_event (xtool_step c env)"
  proof (rule appendsI)
    fix s :: state
    define s1 where "s1 = s\<lparr>pids := replicate (length (wids s)) 0\<rparr>"
    define s2 where "s2 = resolve_pids c env 0 (wids s1) s1"
    define s3 where "s3 = close_windows c env (wids s2) s2"
    define s4 where "s4 = kill_pids c env (pids s3) s3"
    obtain e2 where e2: "trace s2 = trace s1 @ e2" "list_all cascade_event e2"
      unfolding s2_def using resolve_pids_trace by blast
    obtain e3 where e3: "trace s3 = trace s2 @ e3" "list_all cascade_event e3"
      unfolding s3_def using close_windows_trace by blast
    obtain e4 where e4: "trace s4 = trace s3 @ e4" "list_all cascade_event e4"
      unfolding s4_def using kill_pids_trace by blast
    have "trace s4 = trace s @ (e2 @ e3 @ e4)" "list_all cascade_event (e2 @ e3 @ e4)"
      using e2 e3 e4 by (simp_all add: s1_def)
    moreover have "xtool_step c env s = (if tryXToolClose s then (Next, s4) else (Next, s))"
      by (simp add: xtool_step_def Let_def s1_def s2_def s3_def s4_def)
    ultimately show "\<exists>evs. trace (snd (xtool_step c env s)) = trace s @ evs
        \<and> list_all cascade_event evs"
      by (cases "tryXToolClose s") auto
  qed
  moreover have "appends cascade_event (wmctrl_step c env)"
    by (rule appendsI) (auto simp: step_defs Let_def split: option.splits prod.splits)
  ultimately show ?thesis
    unfolding cascade_def by (intro appends_seq) auto
qed

lemma finish_appends: "appends finish_event (finish c i env)"
proof -
  have "appends finish_event (collect_step c i env)"
    by (rule appendsI) (simp add: step_defs Let_def split: option.splits)
  moreover have "appends finish_event (restore_step c env)"
    by (rule appendsI) (simp add: step_defs Let_def split: option.splits)
  moreover have "appends finish_event (record_step c)"
    by (rule appendsI) (simp add: step_defs Let_def split: option.splits)
  ultimately show ?thesis
    unfolding finish_def by (intro appends_seq) auto
qed

subsection \<open>What the parts leave unchanged\<close>

lemma seq_frame:
  assumes "\<And>p s. p \<in> set ps \<Longrightarrow> g (snd (p s)) = g s"
  shows "g (snd (seq ps s)) = g s"
  using assms
proof (induction ps arbitrary: s)
  case Nil
  show ?case by simp
next
  case (Cons p ps)
  show ?case
  proof (cases "fst (p s) = Next")
    case True
    then obtain s1 where ps: "p s = (Next, s1)"
      by (cases "p s") auto
    have "g (snd (seq ps s1)) = g s1"
      using Cons by simp
    moreover have "g s1 = g s"
      using Cons.prems [of p s] ps by simp
    ultimately show ?thesis
      using ps by (simp add: seq_goes)
  next
    case False
    then show ?thesis
      using Cons.prems [of p s] by (simp add: seq_stops)
  qed
qed

lemma command_step_outRes: "outRes (snd (command_step c i env s)) = outRes s"
proof (cases "NoTrace (Run c)")
  case True
  then show ?thesis
    by (simp add: step_defs split: list.splits)
next
  case False
  have "outRes (snd (seq [tempdir_step i env, mkfifo_step i env, openfifo_step i env,
      reader_step i, trace_exec_step i env] s)) = outRes s"
    by (rule seq_frame) (auto simp: step_defs Let_def split: option.splits)
  with False show ?thesis
    by (simp add: command_step_def)
qed

lemma launch_outRes: "outRes (snd (launch c i env s)) = outRes s"
  unfolding launch_def
  by (rule seq_frame)
    (auto simp: command_step_outRes prepare_step_def target_step_def log_step_def
      discard_step_def windowspec_step_def free_caches_step_def start_step_def
      emit_def push_defer_def logError_def Let_def split: option.splits list.splits)

lemma xtool_step_frame:
  "fst (xtool_step c env s) = Next"
  "outRes (snd (xtool_step c env s)) = outRes s"
  "startup (snd (xtool_step c env s)) = startup s"
  "defers (snd (xtool_step c env s)) = defers s"
  "wids (snd (xtool_step c env s)) = wids s"
  by (simp_all add: xtool_step_def Let_def resolve_pids_frame close_windows_frame
      kill_pids_frame)

lemma wmctrl_step_frame:
  "fst (wmctrl_step c env s) = Next"
  "outRes (snd (wmctrl_step c env s)) = outRes s"
  "startup (snd (wmctrl_step c env s)) = startup s"
  "defers (snd (wmctrl_step c env s)) = defers s"
  by (auto simp: step_defs Let_def split: option.splits prod.splits)

lemma wait_step_frame:
  "fst (wait_step c env s) = Next"
  "outRes (snd (wait_step c env s)) = outRes s"
  "startup (snd (wait_step c env s)) = elapsed env"
  "defers (snd (wait_step c env s)) = defers s"
  by (auto simp: step_defs Let_def split: option.splits)

lemma cascade_eq:
  "cascade c env s =
     (Next, snd (wmctrl_step c env (snd (xtool_step c env (snd (wait_step c env s))))))"
proof -
  have "wait_step c env s = (Next, snd (wait_step c env s))"
    by (metis prod.collapse wait_step_frame(1))
  moreover have "xtool_step c env (snd (wait_step c env s))
      = (Next, snd (xtool_step c env (snd (wait_step c env s))))"
    by (metis prod.collapse xtool_step_frame(1))
  moreover have "wmctrl_step c env (snd (xtool_step c env (snd (wait_step c env s))))
      = (Next, snd (wmctrl_step c env (snd (xtool_step c env (snd (wait_step c env s))))))"
    by (metis prod.collapse wmctrl_step_frame(1))
  ultimately show ?thesis
    by (simp add: cascade_def seq_goes)
qed

lemma cascade_frame:
  "fst (cascade c env s) = Next"
  "outRes (snd (cascade c env s)) = outRes s"
  "startup (snd (cascade c env s)) = elapsed env"
  "defers (snd (cascade c env s)) = defers s"
  by (simp_all add: cascade_eq wmctrl_step_frame xtool_step_frame wait_step_frame)

lemma collect_step_frame:
  "fst (collect_step c i env s) = Next"
  "outRes (snd (collect_step c i env s)) = outRes s"
  "startup (snd (collect_step c i env s)) = startup s"
  "defers (snd (collect_step c i env s)) = defers s"
  "\<not> NoTrace (Run c) \<Longrightarrow> slg (snd (collect_step c i env s)) = fst (trace_timings_result env)"
  by (auto simp: step_defs Let_def split: option.splits)

lemma restore_step_frame:
  "fst (restore_step c env s) = Next"
  "outRes (snd (restore_step c env s)) = outRes s"
  "startup (snd (restore_step c env s)) = startup s"
  "defers (snd (restore_step c env s)) = defers s"
  "slg (snd (restore_step c env s)) = slg s"
  by (auto simp: step_defs Let_def split: option.splits)

lemma finish_eq:
  "finish c i env s = record_step c (snd (restore_step c env (snd (collect_step c i env s))))"
proof -
  have "collect_step c i env s = (Next, snd (collect_step c i env s))"
    by (metis prod.collapse collect_step_frame(1))
  moreover have "restore_step c env (snd (collect_step c i env s))
      = (Next, snd (restore_step c env (snd (collect_step c i env s))))"
    by (metis prod.collapse restore_step_frame(1))
  ultimately show ?thesis
    by (simp add: finish_def seq_goes)
qed

lemma trial_eq:
  assumes "launch c i env s = (Next, s1)"
  shows "trial c i env s = finish c i env (snd (cascade c env s1))"
proof -
  have "cascade c env s1 = (Next, snd (cascade c env s1))"
    by (metis prod.collapse cascade_frame(1))
  with assms show ?thesis
    by (simp add: trial_def seq_goes)
qed

lemma trial_stops:
  assumes "fst (launch c i env s) \<noteq> Next"
  shows "trial c i env s = launch c i env s"
  using assms by (simp add: trial_def seq_stops)

lemma Base_not_empty: "Base p \<noteq> []"
  by (simp add: Base_def Let_def)

lemmas eval_defs = step_defs part_defs run_defs sample_defs resolve_windowspec_def Base_def
  loop.simps seq.simps(2)

section \<open>Runs on the sample input\<close>

text \<open>
  Claim C1: in a traced trial whose trace parser fails, the failure is appended to the
  error list, the timing stays nil, and the trial still completes: an
  \<^verbatim>\<open>Execution\<close> with a run time is built and appended to the results.

  On the sample input with a parser that returns \<^verbatim>\<open>(nil, err)\<close>, the error is logged
  (line 350) and the restore step is passed, but \<^verbatim>\<open>slg.TotalTime\<close> (line 371)
  dereferences the nil timing: \<^verbatim>\<open>Execute\<close> panics, the deferred calls run, and no
  \<^verbatim>\<open>Execution\<close> is recorded.
\<close>

theorem parse_failure_panics:
  "observable (Execute sample_cmd
       (all_trials (sample_env\<lparr>trace_timings_result := (None, Some ''bad trace'')\<rparr>)))
   = (Panic ''nil pointer dereference'',
      [''cannot extract runtime data: bad trace''], [],
      [TempDir 0, Mkfifo 0, OpenFifo 0, GoReader 0, TraceExecCommand 0 [''sample-app''],
       FreeCaches, Start, WaitForWindow \<lparr>Class = ''sample-app'', Name = []\<rparr>,
       PidForWindowID ''w1'', PidForWindowID ''w2'', CloseWindowID ''w1'',
       CloseWindowID ''w2'', Signal 11, Signal 22, CloseFifo 0, AwaitDone 0,
       CloseFifo 0, RemoveAll 0], [])"
  by (simp add: eval_defs observable_def)

text \<open>
  Claim C3: for every traced trial but the last, the temporary trace directory and the
  sentinel writer are released before the next trial begins.

  With one additional iteration on the sample input, the sentinel writer of the first
  trial is closed before the second trial (\<open>CloseFifo 0\<close>, line 339), but the directory
  is not: \<^verbatim>\<open>defer os.RemoveAll(straceTmp)\<close> stands inside the loop and runs when
  \<^verbatim>\<open>Execute\<close> returns, so \<open>RemoveAll 0\<close> is the last event of the run, after the
  whole second trial.
\<close>

theorem tempdir_outlives_trial:
  "trace (snd (Execute (sample_cmd\<lparr>AdditionalIterations := 1\<rparr>) (all_trials sample_env)))
   = [TempDir 0, Mkfifo 0, OpenFifo 0, GoReader 0, TraceExecCommand 0 [''sample-app''],
      FreeCaches, Start, WaitForWindow \<lparr>Class = ''sample-app'', Name = []\<rparr>,
      PidForWindowID ''w1'', PidForWindowID ''w2'', CloseWindowID ''w1'',
      CloseWindowID ''w2'', Signal 11, Signal 22, CloseFifo 0, AwaitDone 0,
      TempDir 1, Mkfifo 1, OpenFifo 1, GoReader 1, TraceExecCommand 1 [''sample-app''],
      FreeCaches, Start, WaitForWindow \<lparr>Class = ''sample-app'', Name = []\<rparr>,
      PidForWindowID ''w1'', PidForWindowID ''w2'', CloseWindowID ''w1'',
      CloseWindowID ''w2'', Signal 11, Signal 22, CloseFifo 1, AwaitDone 1,
      Encode [\<lparr>ExecveTiming = Some \<lparr>TotalTime = 70\<rparr>, TimeToDisplay = 50,
                TimeToRun = 70, Errors = []\<rparr>,
              \<lparr>ExecveTiming = Some \<lparr>TotalTime = 70\<rparr>, TimeToDisplay = 50,
                TimeToRun = 70, Errors = []\<rparr>],
      CloseFifo 1, RemoveAll 1, CloseFifo 0, RemoveAll 0]"
  by (simp add: eval_defs)

text \<open>
  Claim C5: a run that completes without a fatal setup error, with
  \<^verbatim>\<open>AdditionalIterations = additional\<close>, holds exactly \<open>1 + additional\<close> records, one
  per trial, in trial order.

  The bound of the loop is computed in \<^verbatim>\<open>uint\<close>: for the largest value of
  \<^verbatim>\<open>AdditionalIterations\<close> it wraps around to 0, no trial runs at all and the run
  returns nil with an empty result, although the option is documented with
  "1 iteration is always run".
\<close>

theorem no_iteration_at_max:
  "observable (Execute (sample_cmd\<lparr>AdditionalIterations := 18446744073709551615\<rparr>)
      (all_trials sample_env))
   = (ReturnNil, [], [], [Encode []], [])"
  by (simp add: eval_defs observable_def)

section \<open>The window selector\<close>

text \<open>The last element of a path, as \<^verbatim>\<open>filepath.Base\<close> returns it.\<close>

lemma Base_last_element:
  assumes "name \<noteq> []" and "CHR ''/'' \<notin> set name"
  shows "Base (dir @ ''/'' @ name) = name" and "Base name = name"
proof -
  obtain c cs where r: "rev name = c # cs"
    using assms(1) by (cases "rev name") auto
  have c: "c \<noteq> CHR ''/''"
    using assms(2) r by (metis list.set_intros(1) set_rev)
  have tw: "takeWhile (\<lambda>c. c \<noteq> CHR ''/'') (rev name @ ys)
      = rev name @ takeWhile (\<lambda>c. c \<noteq> CHR ''/'') ys" for ys
    using assms(2) by (intro takeWhile_append2) auto
  have dw: "dropWhile (\<lambda>c. c = CHR ''/'') (rev name @ ys) = rev name @ ys" for ys
    using r c by simp
  show "Base (dir @ ''/'' @ name) = name"
    using assms(1) tw [of "CHR ''/'' # rev dir"] dw [of "CHR ''/'' # rev dir"]
    by (simp add: Base_def Let_def)
  have a: "takeWhile (\<lambda>c. c \<noteq> CHR ''/'') (rev name) = rev name"
    using assms(2) by (auto simp: takeWhile_eq_all_conv)
  have b: "dropWhile (\<lambda>c. c = CHR ''/'') (rev name) = rev name"
    using r c by simp
  show "Base name = name"
    unfolding Base_def Let_def b rev_rev_ident a using assms(1) by simp
qed

lemma Base_no_slash: "CHR ''/'' \<notin> set (Base p) \<or> Base p = ''/''"
proof -
  have "CHR ''/'' \<notin> set (takeWhile (\<lambda>c. c \<noteq> CHR ''/'') xs)" for xs
    by (induction xs) auto
  then show ?thesis
    by (simp add: Base_def Let_def)
qed

text \<open>
  Claim C8: the window selector always resolves and sets exactly one of class and name:
  the class option if given; else the name option if given; else the base name of the
  first token of the original command, not of the command rewritten for
  \<^verbatim>\<open>snap run\<close>.

  The command is not empty (it is a required argument). The selector is the same in
  whatever state the statement is reached, so it does not depend on \<^verbatim>\<open>targetCmd\<close>.
  A derived class is a base name: it holds no slash unless it is the root, and for a
  first token that is a file name, alone or behind a directory, it is that file name.
\<close>

theorem windowspec_resolves:
  assumes "Cmd (Run c) \<noteq> []"
  shows "\<exists>w. resolve_windowspec (Run c) = Some w
    \<and> fst (windowspec_step c s) = Next \<and> windowspec (snd (windowspec_step c s)) = w
    \<and> (Class w = [] \<longleftrightarrow> Name w \<noteq> [])
    \<and> w = (if WindowClass (Run c) \<noteq> [] then \<lparr>Class = WindowClass (Run c), Name = []\<rparr>
           else if WindowName (Run c) \<noteq> [] then \<lparr>Class = [], Name = WindowName (Run c)\<rparr>
           else \<lparr>Class = Base (hd (Cmd (Run c))), Name = []\<rparr>)
    \<and> (WindowClass (Run c) = [] \<and> WindowName (Run c) = [] \<longrightarrow>
          (CHR ''/'' \<notin> set (Class w) \<or> Class w = ''/'')
          \<and> (\<forall>dir name. name \<noteq> [] \<and> CHR ''/'' \<notin> set name
                \<and> (hd (Cmd (Run c)) = dir @ ''/'' @ name \<or> hd (Cmd (Run c)) = name)
                \<longrightarrow> Class w = name))"
proof -
  obtain prog args where cmd: "Cmd (Run c) = prog # args"
    using assms by (cases "Cmd (Run c)") auto
  define w where "w = (if WindowClass (Run c) \<noteq> [] then \<lparr>Class = WindowClass (Run c), Name = []\<rparr>
           else if WindowName (Run c) \<noteq> [] then \<lparr>Class = [], Name = WindowName (Run c)\<rparr>
           else \<lparr>Class = Base prog, Name = []\<rparr>)"
  have 1: "resolve_windowspec (Run c) = Some w"
    using cmd by (simp add: resolve_windowspec_def w_def)
  then have 2: "fst (windowspec_step c s) = Next" "windowspec (snd (windowspec_step c s)) = w"
    by (simp_all add: windowspec_step_def)
  have 3: "Class w = [] \<longleftrightarrow> Name w \<noteq> []"
    by (simp add: w_def Base_not_empty)
  have 4: "CHR ''/'' \<notin> set (Class w) \<or> Class w = ''/''"
    if "WindowClass (Run c) = []" "WindowName (Run c) = []"
    using that Base_no_slash [of prog] by (simp add: w_def)
  have 5: "Class w = name"
    if "WindowClass (Run c) = []" "WindowName (Run c) = []" "name \<noteq> []"
      "CHR ''/'' \<notin> set name" "prog = dir @ ''/'' @ name \<or> prog = name" for dir name
  proof -
    have "Base prog = name"
      using that(3,4,5) Base_last_element(1) [of name dir] Base_last_element(2) [of name]
      by blast
    then show ?thesis
      using that(1,2) by (simp add: w_def)
  qed
  have 6: "w = (if WindowClass (Run c) \<noteq> [] then \<lparr>Class = WindowClass (Run c), Name = []\<rparr>
           else if WindowName (Run c) \<noteq> [] then \<lparr>Class = [], Name = WindowName (Run c)\<rparr>
           else \<lparr>Class = Base (hd (Cmd (Run c))), Name = []\<rparr>)"
    by (simp add: w_def cmd)
  have 7: "\<forall>dir name. name \<noteq> [] \<and> CHR ''/'' \<notin> set name
      \<and> (hd (Cmd (Run c)) = dir @ ''/'' @ name \<or> hd (Cmd (Run c)) = name) \<longrightarrow> Class w = name"
    if "WindowClass (Run c) = []" "WindowName (Run c) = []"
    using 5 [OF that] unfolding cmd list.sel by blast
  show ?thesis
    using 1 2 3 4 6 7 by (intro exI [of _ w]) blast
qed

theorem windowspec_resolves_witness:
  "Cmd (Run path_cmd) \<noteq> []
   \<and> targetCmd (snd (target_step path_cmd init)) = [''snap'', ''run'', ''/snap/bin/chromium'']
   \<and> resolve_windowspec (Run path_cmd) = Some \<lparr>Class = ''chromium'', Name = []\<rparr>
   \<and> windowspec (snd (windowspec_step path_cmd (snd (target_step path_cmd init))))
     = \<lparr>Class = ''chromium'', Name = []\<rparr>"
proof -
  have h: "Cmd (Run path_cmd) \<noteq> []"
    by (simp add: sample_defs)
  have split: "hd (Cmd (Run path_cmd)) = ''/snap/bin'' @ ''/'' @ ''chromium''"
    by (simp add: sample_defs)
  have name: "''chromium'' \<noteq> []" "CHR ''/'' \<notin> set ''chromium''"
    by simp_all
  have none: "WindowClass (Run path_cmd) = []" "WindowName (Run path_cmd) = []"
    by (simp_all add: sample_defs)
  have t: "targetCmd (snd (target_step path_cmd init))
      = [''snap'', ''run'', ''/snap/bin/chromium'']"
    by (simp add: sample_defs target_step_def)
  obtain w where w: "resolve_windowspec (Run path_cmd) = Some w"
      "windowspec (snd (windowspec_step path_cmd (snd (target_step path_cmd init)))) = w"
      "Class w = [] \<longleftrightarrow> Name w \<noteq> []"
      "\<forall>dir name. name \<noteq> [] \<and> CHR ''/'' \<notin> set name
         \<and> (hd (Cmd (Run path_cmd)) = dir @ ''/'' @ name \<or> hd (Cmd (Run path_cmd)) = name)
         \<longrightarrow> Class w = name"
    using windowspec_resolves [OF h, of "snd (target_step path_cmd init)"] none by blast
  have "Class w = ''chromium''"
    using w(4) split name by blast
  then have "w = \<lparr>Class = ''chromium'', Name = []\<rparr>"
    using w(3) by (cases w) auto
  with h t w(1,2) show ?thesis
    by simp
qed

section \<open>The record of a trial\<close>

lemma trial_Next:
  assumes "trial c i env s = (Next, s')"
  obtains s1 where "launch c i env s = (Next, s1)"
    and "finish c i env (snd (cascade c env s1)) = (Next, s')"
proof -
  from assms obtain s1 where l: "launch c i env s = (Next, s1)"
    by (auto simp: trial_def seq_Cons_Next)
  with assms have "finish c i env (snd (cascade c env s1)) = (Next, s')"
    by (simp add: trial_eq)
  with l show ?thesis
    by (rule that)
qed

text \<open>The record that a completed trial appends.\<close>

lemma trial_record:
  assumes "trial c i env s = (Next, s')"
  shows "\<exists>r. outRes s' = outRes s @ [r] \<and> TimeToDisplay r = elapsed env
    \<and> (if NoTrace (Run c) then TimeToRun r = TimeToDisplay r
       else \<exists>t. fst (trace_timings_result env) = Some t \<and> ExecveTiming r = Some t
              \<and> TimeToRun r = TotalTime t)"
proof -
  from assms obtain s1 where l: "launch c i env s = (Next, s1)"
    and f: "finish c i env (snd (cascade c env s1)) = (Next, s')"
    by (rule trial_Next)
  define s2 where "s2 = snd (cascade c env s1)"
  define s4 where "s4 = snd (restore_step c env (snd (collect_step c i env s2)))"
  have r: "record_step c s4 = (Next, s')"
    using f by (simp add: finish_eq s2_def s4_def)
  have "outRes s1 = outRes s"
    using launch_outRes [of c i env s] l by simp
  then have out: "outRes s4 = outRes s"
    by (simp add: s4_def s2_def restore_step_frame collect_step_frame cascade_frame)
  have st: "startup s4 = elapsed env"
    by (simp add: s4_def s2_def restore_step_frame collect_step_frame cascade_frame)
  have sl: "\<not> NoTrace (Run c) \<Longrightarrow> slg s4 = fst (trace_timings_result env)"
    by (simp add: s4_def restore_step_frame collect_step_frame)
  show ?thesis
  proof (cases "NoTrace (Run c)")
    case True
    with r out st show ?thesis
      by (auto simp: record_step_def Let_def emit_def resetErrors_def split: if_splits)
  next
    case False
    with r obtain t where t: "slg s4 = Some t"
      by (cases "slg s4") (auto simp: record_step_def)
    have tt: "fst (trace_timings_result env) = Some t"
      using sl [OF False] t by simp
    from r t False have "outRes s' = outRes s4 @ [\<lparr>ExecveTiming = Some t,
        TimeToDisplay = startup s4, TimeToRun = TotalTime t, Errors = errs s4\<rparr>]"
      by (auto simp: record_step_def Let_def emit_def resetErrors_def)
    then show ?thesis
      using False out st tt by simp
  qed
qed

text \<open>
  Claim C4: for every completed trial, in untraced mode the run time equals the display
  time exactly; in traced mode the run time equals the total duration reported by the
  trace parser, whatever the display time is.

  The display time of the record is the elapsed time measured after the wait; the record
  is the one appended by this trial.
\<close>

theorem run_time_source:
  assumes "trial c i env s = (Next, s')"
  shows "\<exists>r. outRes s' = outRes s @ [r] \<and> TimeToDisplay r = elapsed env
    \<and> (if NoTrace (Run c) then TimeToRun r = TimeToDisplay r
       else \<exists>t. fst (trace_timings_result env) = Some t \<and> ExecveTiming r = Some t
              \<and> TimeToRun r = TotalTime t)"
  using assms by (rule trial_record)

theorem run_time_source_witness:
  "fst (trial sample_cmd 0 sample_env init) = Next
   \<and> outRes (snd (trial sample_cmd 0 sample_env init))
     = [\<lparr>ExecveTiming = Some \<lparr>TotalTime = 70\<rparr>, TimeToDisplay = 50, TimeToRun = 70,
         Errors = []\<rparr>]
   \<and> fst (trial (sample_cmd\<lparr>Run := sample_run\<lparr>NoTrace := True\<rparr>\<rparr>) 0 sample_env init) = Next
   \<and> outRes (snd (trial (sample_cmd\<lparr>Run := sample_run\<lparr>NoTrace := True\<rparr>\<rparr>) 0 sample_env init))
     = [\<lparr>ExecveTiming = None, TimeToDisplay = 50, TimeToRun = 50, Errors = []\<rparr>]"
proof -
  have h1: "trial sample_cmd 0 sample_env init
      = (Next, snd (trial sample_cmd 0 sample_env init))"
    by (simp add: eval_defs)
  have h2: "trial (sample_cmd\<lparr>Run := sample_run\<lparr>NoTrace := True\<rparr>\<rparr>) 0 sample_env init
      = (Next, snd (trial (sample_cmd\<lparr>Run := sample_run\<lparr>NoTrace := True\<rparr>\<rparr>) 0 sample_env init))"
    by (simp add: eval_defs)
  show ?thesis
    using run_time_source [OF h1] run_time_source [OF h2]
    by (simp add: eval_defs)
qed

section \<open>The termination cascade\<close>

lemma signals_append [simp]: "signals (xs @ ys) = signals xs @ signals ys"
  by (induction xs rule: signals.induct) simp_all

lemma pid_lookups_append [simp]: "pid_lookups (xs @ ys) = pid_lookups xs @ pid_lookups ys"
  by (induction xs rule: pid_lookups.induct) simp_all

lemma window_closes_append [simp]:
  "window_closes (xs @ ys) = window_closes xs @ window_closes ys"
  by (induction xs rule: window_closes.induct) simp_all

lemma wmctrl_calls_append [simp]:
  "wmctrl_calls (xs @ ys) = wmctrl_calls xs @ wmctrl_calls ys"
  by (induction xs rule: wmctrl_calls.induct) simp_all

lemma discards_append [simp]: "discards (xs @ ys) = discards xs @ discards ys"
  by (induction xs rule: discards.induct) simp_all

lemma launch_event_no_close:
  assumes "list_all launch_event evs"
  shows "signals evs = [] \<and> pid_lookups evs = [] \<and> window_closes evs = []
    \<and> wmctrl_calls evs = []"
  using assms
proof (induction evs)
  case Nil
  show ?case by simp
next
  case (Cons x evs)
  then show ?case by (cases x) simp_all
qed

lemma finish_event_no_close:
  assumes "list_all finish_event evs"
  shows "signals evs = [] \<and> pid_lookups evs = [] \<and> window_closes evs = []
    \<and> wmctrl_calls evs = []"
  using assms
proof (induction evs)
  case Nil
  show ?case by simp
next
  case (Cons x evs)
  then show ?case by (cases x) simp_all
qed

lemma emitted_append: "trace s' = trace s @ evs \<Longrightarrow> emitted s s' = evs"
  by (simp add: emitted_def)

text \<open>The events of a trial that got past \<^verbatim>\<open>cmd.Start()\<close>, part by part.\<close>

lemma trial_emitted:
  assumes "launch c i env s = (Next, s1)"
  obtains el ef where "list_all launch_event el" and "list_all finish_event ef"
    and "emitted s (snd (trial c i env s))
      = el @ emitted s1 (snd (cascade c env s1)) @ ef"
proof -
  define s2 where "s2 = snd (cascade c env s1)"
  define s3 where "s3 = snd (finish c i env s2)"
  have t: "snd (trial c i env s) = s3"
    using assms by (simp add: trial_eq s2_def s3_def)
  have l: "trace s1 = trace s @ emitted s s1" "list_all launch_event (emitted s s1)"
    using appends_emitted [OF launch_appends [of c i env], of s] assms by simp_all
  have m: "trace s2 = trace s1 @ emitted s1 s2"
    using appends_emitted [OF cascade_appends [of c env], of s1] by (simp add: s2_def)
  have f: "trace s3 = trace s2 @ emitted s2 s3" "list_all finish_event (emitted s2 s3)"
    using appends_emitted [OF finish_appends [of c i env], of s2] by (simp_all add: s3_def)
  have "trace s3 = trace s @ (emitted s s1 @ emitted s1 s2 @ emitted s2 s3)"
    using l m f by simp
  then have "emitted s s3 = emitted s s1 @ emitted s1 s2 @ emitted s2 s3"
    by (rule emitted_append)
  with l f show ?thesis
    using that [of "emitted s s1" "emitted s2 s3"] by (simp add: t s2_def)
qed

lemma launch_flags:
  assumes "launch c i env s = (Next, s1)"
  shows "tryXToolClose s1" and "\<not> tryWmctrl s1" and "wids s1 = []"
proof -
  from assms obtain s6 s7 s8 where "windowspec_step c s6 = (Next, s7)"
      and "free_caches_step env s7 = (Next, s8)" and "start_step env s8 = (Next, s1)"
    by (auto simp: launch_def seq_Cons_Next)
  then show "tryXToolClose s1" and "\<not> tryWmctrl s1" and "wids s1 = []"
    by (auto simp: windowspec_step_def free_caches_step_def start_step_def emit_def Let_def
        split: option.splits)
qed

lemma cascade_wait_failure:
  assumes "\<not> NoWindowWait (Run c)"
    and "snd (wait_for_window_result env) = Some e"
    and "\<not> tryWmctrl s"
  shows "errs (snd (cascade c env s)) = errs s @ [''waiting for window appearance: '' @ e]"
    and "pid_lookups (emitted s (snd (cascade c env s))) = []"
    and "window_closes (emitted s (snd (cascade c env s))) = []"
    and "signals (emitted s (snd (cascade c env s))) = []"
    and "wmctrl_calls (emitted s (snd (cascade c env s))) = []"
  using assms
  by (simp_all add: cascade_eq wait_step_def xtool_step_def wmctrl_step_def logError_def
      emit_def emitted_def Let_def)

lemma finish_errs:
  "set (errs s) \<subseteq> set (errs (snd (restore_step c env (snd (collect_step c i env s)))))"
  by (auto simp: step_defs Let_def split: option.splits)

text \<open>
  Claim C2: when the wait for the window fails, the error is recorded in the error list
  of the trial, closing the windows, resolving pids and killing are not attempted, and
  the fallback through the window manager is invoked.

  The last part does not hold: the failure branch (lines 281-285) clears
  \<^verbatim>\<open>tryXToolClose\<close> and leaves \<^verbatim>\<open>tryWmctrl\<close> false, so \<^verbatim>\<open>wmctrlCloseWindow\<close>
  is not called either. On the sample input with a wait that times out, the error is in
  the record and the trace has no call of \<^verbatim>\<open>wmctrl\<close>.
\<close>

theorem wait_failure_no_fallback:
  "observable (Execute sample_cmd
       (all_trials (sample_env\<lparr>wait_for_window_result := ([], Some ''timeout'')\<rparr>)))
   = (ReturnNil, [],
      [\<lparr>ExecveTiming = Some \<lparr>TotalTime = 70\<rparr>, TimeToDisplay = 50, TimeToRun = 70,
        Errors = [''waiting for window appearance: timeout'']\<rparr>],
      [TempDir 0, Mkfifo 0, OpenFifo 0, GoReader 0, TraceExecCommand 0 [''sample-app''],
       FreeCaches, Start, WaitForWindow \<lparr>Class = ''sample-app'', Name = []\<rparr>,
       CloseFifo 0, AwaitDone 0,
       Encode [\<lparr>ExecveTiming = Some \<lparr>TotalTime = 70\<rparr>, TimeToDisplay = 50,
                 TimeToRun = 70, Errors = [''waiting for window appearance: timeout'']\<rparr>],
       CloseFifo 0, RemoveAll 0], [])
   \<and> wmctrl_calls (trace (snd (Execute sample_cmd
       (all_trials (sample_env\<lparr>wait_for_window_result := ([], Some ''timeout'')\<rparr>))))) = []"
  by (simp add: eval_defs observable_def)

text \<open>
  Claim C2, amended: in a trial that gets past \<^verbatim>\<open>cmd.Start()\<close> and whose wait for the
  window fails, the cascade records exactly that error, the trial asks for no pid, closes
  no window, sends no signal and does not call \<^verbatim>\<open>wmctrl\<close>; if the trial completes, the
  error is in its record.
\<close>

theorem wait_failure_skips_closing:
  assumes "launch c i env s = (Next, s1)"
    and "\<not> NoWindowWait (Run c)"
    and "snd (wait_for_window_result env) = Some e"
  shows "errs (snd (cascade c env s1)) = errs s1 @ [''waiting for window appearance: '' @ e]
    \<and> pid_lookups (emitted s (snd (trial c i env s))) = []
    \<and> window_closes (emitted s (snd (trial c i env s))) = []
    \<and> signals (emitted s (snd (trial c i env s))) = []
    \<and> wmctrl_calls (emitted s (snd (trial c i env s))) = []
    \<and> (fst (trial c i env s) = Next \<longrightarrow>
         ''waiting for window appearance: '' @ e
           \<in> set (Errors (last (outRes (snd (trial c i env s))))))"
proof -
  have nw: "\<not> tryWmctrl s1"
    using launch_flags [OF assms(1)] by simp
  note cw = cascade_wait_failure [OF assms(2) assms(3) nw]
  obtain el ef where el: "list_all launch_event el" and ef: "list_all finish_event ef"
    and em: "emitted s (snd (trial c i env s)) = el @ emitted s1 (snd (cascade c env s1)) @ ef"
    using assms(1) by (rule trial_emitted)
  have quiet: "pid_lookups (emitted s (snd (trial c i env s))) = []
    \<and> window_closes (emitted s (snd (trial c i env s))) = []
    \<and> signals (emitted s (snd (trial c i env s))) = []
    \<and> wmctrl_calls (emitted s (snd (trial c i env s))) = []"
    using launch_event_no_close [OF el] finish_event_no_close [OF ef] cw
    by (simp add: em)
  have rec: "''waiting for window appearance: '' @ e
      \<in> set (Errors (last (outRes (snd (trial c i env s)))))"
    if "fst (trial c i env s) = Next"
  proof -
    define s2 where "s2 = snd (cascade c env s1)"
    define s4 where "s4 = snd (restore_step c env (snd (collect_step c i env s2)))"
    have "''waiting for window appearance: '' @ e \<in> set (errs s2)"
      using cw(1) by (simp add: s2_def)
    then have in4: "''waiting for window appearance: '' @ e \<in> set (errs s4)"
      using finish_errs [of s2 c env i] by (auto simp: s4_def)
    have t: "trial c i env s = record_step c s4"
      using assms(1) by (simp add: trial_eq finish_eq s2_def s4_def)
    with that have "fst (record_step c s4) = Next"
      by simp
    then have "Errors (last (outRes (snd (record_step c s4)))) = errs s4"
      by (auto simp: record_step_def Let_def emit_def resetErrors_def
          split: option.splits if_splits)
    with in4 t show ?thesis
      by simp
  qed
  from cw(1) quiet rec show ?thesis
    by blast
qed

theorem wait_failure_skips_closing_witness:
  "launch sample_cmd 0 (sample_env\<lparr>wait_for_window_result := ([], Some ''timeout'')\<rparr>) init
     = (Next, snd (launch sample_cmd 0
          (sample_env\<lparr>wait_for_window_result := ([], Some ''timeout'')\<rparr>) init))
   \<and> \<not> NoWindowWait (Run sample_cmd)
   \<and> fst (trial sample_cmd 0 (sample_env\<lparr>wait_for_window_result := ([], Some ''timeout'')\<rparr>)
        init) = Next
   \<and> ''waiting for window appearance: timeout''
       \<in> set (Errors (last (outRes (snd (trial sample_cmd 0
            (sample_env\<lparr>wait_for_window_result := ([], Some ''timeout'')\<rparr>) init)))))
   \<and> wmctrl_calls (emitted init (snd (trial sample_cmd 0
            (sample_env\<lparr>wait_for_window_result := ([], Some ''timeout'')\<rparr>) init))) = []"
proof -
  define env where "env = sample_env\<lparr>wait_for_window_result := ([], Some ''timeout'')\<rparr>"
  have h1: "launch sample_cmd 0 env init = (Next, snd (launch sample_cmd 0 env init))"
    by (simp add: env_def eval_defs)
  have h2: "\<not> NoWindowWait (Run sample_cmd)"
    by (simp add: sample_defs)
  have h3: "snd (wait_for_window_result env) = Some ''timeout''"
    by (simp add: env_def sample_defs)
  have h4: "fst (trial sample_cmd 0 env init) = Next"
    by (simp add: env_def eval_defs)
  show ?thesis
    using wait_failure_skips_closing [OF h1 h2 h3] h1 h2 h4
    unfolding env_def by simp
qed

lemma close_windows_quiet:
  "signals (trace (close_windows c env ws s)) = signals (trace s)"
  "pid_lookups (trace (close_windows c env ws s)) = pid_lookups (trace s)"
  by (induction ws arbitrary: s)
    (simp_all add: emit_def logError_def Let_def split: option.splits)

lemma kill_pids_signals:
  "signals (trace (kill_pids c env ps s)) = signals (trace s) @ ps"
  "pid_lookups (trace (kill_pids c env ps s)) = pid_lookups (trace s)"
  by (induction ps arbitrary: s)
    (simp_all add: emit_def logError_def Let_def split: option.splits)

lemma resolve_pids_failure:
  assumes "k < length ws"
    and "\<forall>j<k. snd (pid_for_window_result env (ws ! j)) = None"
    and "snd (pid_for_window_result env (ws ! k)) = Some e"
    and "i + length ws \<le> length (pids s)"
  shows "pids (resolve_pids c env i ws s)
      = take i (pids s) @ map (\<lambda>w. fst (pid_for_window_result env w)) (take k ws)
        @ drop (i + k) (pids s)
    \<and> pid_lookups (trace (resolve_pids c env i ws s)) = pid_lookups (trace s) @ take (Suc k) ws
    \<and> signals (trace (resolve_pids c env i ws s)) = signals (trace s)"
  using assms
proof (induction ws arbitrary: i s k)
  case Nil
  then show ?case by simp
next
  case (Cons wid rest)
  obtain pid r where res: "pid_for_window_result env wid = (pid, r)"
    by (cases "pid_for_window_result env wid")
  show ?case
  proof (cases k)
    case 0
    with Cons.prems res show ?thesis
      by (simp add: emit_def logError_def Let_def)
  next
    case (Suc k')
    have r: "r = None"
      using Cons.prems(2) res Suc by auto
    define s1 where "s1 = (emit (PidForWindowID wid) s)\<lparr>pids := (pids s)[i := pid]\<rparr>"
    have step: "resolve_pids c env i (wid # rest) s = resolve_pids c env (Suc i) rest s1"
      using res r by (simp add: s1_def emit_def Let_def)
    have "k' < length rest"
      using Cons.prems(1) Suc by simp
    moreover have "\<forall>j<k'. snd (pid_for_window_result env (rest ! j)) = None"
      using Cons.prems(2) Suc by auto
    moreover have "snd (pid_for_window_result env (rest ! k')) = Some e"
      using Cons.prems(3) Suc by simp
    moreover have "Suc i + length rest \<le> length (pids s1)"
      using Cons.prems(4) by (simp add: s1_def emit_def)
    ultimately have ih: "pids (resolve_pids c env (Suc i) rest s1)
        = take (Suc i) (pids s1) @ map (\<lambda>w. fst (pid_for_window_result env w)) (take k' rest)
          @ drop (Suc i + k') (pids s1)
      \<and> pid_lookups (trace (resolve_pids c env (Suc i) rest s1))
        = pid_lookups (trace s1) @ take (Suc k') rest
      \<and> signals (trace (resolve_pids c env (Suc i) rest s1)) = signals (trace s1)"
      by (rule Cons.IH)
    have i: "i < length (pids s)"
      using Cons.prems(4) by simp
    have "take (Suc i) (pids s1) = take i (pids s) @ [pid]"
      using i by (simp add: s1_def emit_def take_Suc_conv_app_nth)
    moreover have "drop (Suc i + k') (pids s1) = drop (i + k) (pids s)"
      using Suc by (simp add: s1_def emit_def)
    ultimately show ?thesis
      using ih res Suc unfolding step by (simp add: s1_def emit_def)
  qed
qed

lemma xtool_step_failure:
  assumes "tryXToolClose s"
    and "k < length (wids s)"
    and "\<forall>j<k. snd (pid_for_window_result env (wids s ! j)) = None"
    and "snd (pid_for_window_result env (wids s ! k)) = Some e"
  shows "pid_lookups (trace (snd (xtool_step c env s)))
      = pid_lookups (trace s) @ take (Suc k) (wids s)"
    and "signals (trace (snd (xtool_step c env s)))
      = signals (trace s) @ map (\<lambda>w. fst (pid_for_window_result env w)) (take k (wids s))
        @ replicate (length (wids s) - k) 0"
proof -
  define s1 where "s1 = s\<lparr>pids := replicate (length (wids s)) 0\<rparr>"
  define s2 where "s2 = resolve_pids c env 0 (wids s1) s1"
  define s3 where "s3 = close_windows c env (wids s2) s2"
  define s4 where "s4 = kill_pids c env (pids s3) s3"
  have x: "snd (xtool_step c env s) = s4"
    using assms(1) by (simp add: xtool_step_def Let_def s1_def s2_def s3_def s4_def)
  have "0 + length (wids s1) \<le> length (pids s1)"
    by (simp add: s1_def)
  with assms have r: "pids s2 = take 0 (pids s1)
        @ map (\<lambda>w. fst (pid_for_window_result env w)) (take k (wids s1)) @ drop (0 + k) (pids s1)
    \<and> pid_lookups (trace s2) = pid_lookups (trace s1) @ take (Suc k) (wids s1)
    \<and> signals (trace s2) = signals (trace s1)"
    unfolding s2_def by (intro resolve_pids_failure) (simp_all add: s1_def)
  then have p2: "pids s2 = map (\<lambda>w. fst (pid_for_window_result env w)) (take k (wids s))
      @ replicate (length (wids s) - k) 0"
    by (simp add: s1_def)
  have p3: "pids s3 = pids s2"
    by (simp add: s3_def close_windows_frame)
  show "pid_lookups (trace (snd (xtool_step c env s)))
      = pid_lookups (trace s) @ take (Suc k) (wids s)"
    using r by (simp add: x s4_def s3_def kill_pids_signals close_windows_quiet s1_def)
  show "signals (trace (snd (xtool_step c env s)))
      = signals (trace s) @ map (\<lambda>w. fst (pid_for_window_result env w)) (take k (wids s))
        @ replicate (length (wids s) - k) 0"
    using r p2 p3 by (simp add: x s4_def kill_pids_signals s3_def close_windows_quiet s1_def)
qed

lemma wmctrl_step_quiet:
  "signals (trace (snd (wmctrl_step c env s))) = signals (trace s)"
  "pid_lookups (trace (snd (wmctrl_step c env s))) = pid_lookups (trace s)"
  by (auto simp: step_defs Let_def split: option.splits prod.splits)

lemma cascade_pid_failure:
  assumes "tryXToolClose s"
    and "\<not> NoWindowWait (Run c)"
    and "wait_for_window_result env = (ws, None)"
    and "k < length ws"
    and "\<forall>j<k. snd (pid_for_window_result env (ws ! j)) = None"
    and "snd (pid_for_window_result env (ws ! k)) = Some e"
  shows "pid_lookups (emitted s (snd (cascade c env s))) = take (Suc k) ws"
    and "signals (emitted s (snd (cascade c env s)))
      = map (\<lambda>w. fst (pid_for_window_result env w)) (take k ws) @ replicate (length ws - k) 0"
proof -
  define sa where "sa = snd (wait_step c env s)"
  define sb where "sb = snd (xtool_step c env sa)"
  define sc where "sc = snd (wmctrl_step c env sb)"
  have c: "snd (cascade c env s) = sc"
    by (simp add: cascade_eq sa_def sb_def sc_def)
  have a: "tryXToolClose sa" "wids sa = ws" "signals (trace sa) = signals (trace s)"
      "pid_lookups (trace sa) = pid_lookups (trace s)"
    using assms(1,2,3) by (simp_all add: sa_def wait_step_def emit_def Let_def)
  have b: "pid_lookups (trace sb) = pid_lookups (trace sa) @ take (Suc k) (wids sa)"
      "signals (trace sb) = signals (trace sa)
        @ map (\<lambda>w. fst (pid_for_window_result env w)) (take k (wids sa))
        @ replicate (length (wids sa) - k) 0"
    unfolding sb_def using a(1) assms(4,5,6)
    by (rule_tac [!] xtool_step_failure) (simp_all add: a(2))
  have t: "trace sc = trace s @ emitted s sc"
    using appends_emitted(1) [OF cascade_appends [of c env], of s] by (simp add: c)
  have "pid_lookups (trace sc) = pid_lookups (trace s) @ take (Suc k) ws"
    using a b by (simp add: sc_def wmctrl_step_quiet)
  then have "pid_lookups (trace s) @ pid_lookups (emitted s sc)
      = pid_lookups (trace s) @ take (Suc k) ws"
    by (subst (asm) t) simp
  then show "pid_lookups (emitted s (snd (cascade c env s))) = take (Suc k) ws"
    by (simp add: c)
  have "signals (trace sc) = signals (trace s)
      @ map (\<lambda>w. fst (pid_for_window_result env w)) (take k ws) @ replicate (length ws - k) 0"
    using a b by (simp add: sc_def wmctrl_step_quiet)
  then have "signals (trace s) @ signals (emitted s sc) = signals (trace s)
      @ map (\<lambda>w. fst (pid_for_window_result env w)) (take k ws) @ replicate (length ws - k) 0"
    by (subst (asm) t) simp
  then show "signals (emitted s (snd (cascade c env s)))
      = map (\<lambda>w. fst (pid_for_window_result env w)) (take k ws) @ replicate (length ws - k) 0"
    by (simp add: c)
qed

text \<open>
  Claim C10: in a trial where resolving the pid fails for the window at index \<open>k\<close>, with
  \<open>k\<close> less than the number of discovered windows minus one, the remaining windows are
  not resolved (the loop breaks), yet the kill stage signals every slot of \<^verbatim>\<open>pids\<close>,
  the zero-valued slots of the unresolved windows included.

  The trial is one that gets past \<^verbatim>\<open>cmd.Start()\<close> and waits for a window; \<open>ws\<close> are
  the windows found. The pids asked for are those of the windows up to index \<open>k\<close>; the
  pids signalled are the \<open>k\<close> resolved ones followed by a zero for each other window.
\<close>

theorem pid_failure_kills_every_slot:
  assumes "launch c i env s = (Next, s1)"
    and "\<not> NoWindowWait (Run c)"
    and "wait_for_window_result env = (ws, None)"
    and "k < length ws - 1"
    and "\<forall>j<k. snd (pid_for_window_result env (ws ! j)) = None"
    and "snd (pid_for_window_result env (ws ! k)) = Some e"
  shows "pid_lookups (emitted s (snd (trial c i env s))) = take (Suc k) ws
    \<and> signals (emitted s (snd (trial c i env s)))
      = map (\<lambda>w. fst (pid_for_window_result env w)) (take k ws) @ replicate (length ws - k) 0"
proof -
  have x: "tryXToolClose s1"
    using launch_flags [OF assms(1)] by simp
  have k: "k < length ws"
    using assms(4) by simp
  note cf = cascade_pid_failure [OF x assms(2) assms(3) k assms(5) assms(6)]
  obtain el ef where el: "list_all launch_event el" and ef: "list_all finish_event ef"
    and em: "emitted s (snd (trial c i env s)) = el @ emitted s1 (snd (cascade c env s1)) @ ef"
    using assms(1) by (rule trial_emitted)
  show ?thesis
    using launch_event_no_close [OF el] finish_event_no_close [OF ef] cf
    by (simp add: em)
qed

theorem pid_failure_kills_every_slot_witness:
  "fst (launch sample_cmd 0 (sample_env\<lparr>wait_for_window_result := ([''w1'', ''w2'', ''w3''], None),
       pid_for_window_result := (\<lambda>w. if w = ''w1'' then (11, None) else (0, Some ''no pid''))\<rparr>)
       init) = Next
   \<and> pid_lookups (emitted init (snd (trial sample_cmd 0
        (sample_env\<lparr>wait_for_window_result := ([''w1'', ''w2'', ''w3''], None),
          pid_for_window_result :=
            (\<lambda>w. if w = ''w1'' then (11, None) else (0, Some ''no pid''))\<rparr>) init)))
     = [''w1'', ''w2'']
   \<and> signals (emitted init (snd (trial sample_cmd 0
        (sample_env\<lparr>wait_for_window_result := ([''w1'', ''w2'', ''w3''], None),
          pid_for_window_result :=
            (\<lambda>w. if w = ''w1'' then (11, None) else (0, Some ''no pid''))\<rparr>) init)))
     = [11, 0, 0]"
proof -
  define env where "env = sample_env\<lparr>wait_for_window_result := ([''w1'', ''w2'', ''w3''], None),
       pid_for_window_result := (\<lambda>w. if w = ''w1'' then (11, None) else (0, Some ''no pid''))\<rparr>"
  have h1: "launch sample_cmd 0 env init = (Next, snd (launch sample_cmd 0 env init))"
    by (simp add: env_def eval_defs)
  have h2: "\<not> NoWindowWait (Run sample_cmd)"
    by (simp add: sample_defs)
  have h3: "wait_for_window_result env = ([''w1'', ''w2'', ''w3''], None)"
    by (simp add: env_def sample_defs)
  have h4: "(1::nat) < length [''w1'', ''w2'', ''w3''] - 1"
    by simp
  have h5: "\<forall>j<1. snd (pid_for_window_result env ([''w1'', ''w2'', ''w3''] ! j)) = None"
    by (simp add: env_def sample_defs)
  have h6: "snd (pid_for_window_result env ([''w1'', ''w2'', ''w3''] ! 1)) = Some ''no pid''"
    by (simp add: env_def sample_defs)
  have h0: "fst (launch sample_cmd 0 env init) = Next"
    by (simp add: env_def eval_defs)
  show ?thesis
    using pid_failure_kills_every_slot [OF h1 h2 h3 h4 h5 h6] h0
    unfolding env_def by simp
qed

section \<open>Discarding the snap namespace\<close>

lemma seq_Cons:
  "seq (p # ps) s = (if fst (p s) = Next then seq ps (snd (p s)) else p s)"
  by (cases "p s"; cases "fst (p s)") (auto simp: seq.simps(2))

lemma seq_append:
  "seq (ps @ qs) s = (if fst (seq ps s) = Next then seq qs (snd (seq ps s)) else seq ps s)"
  by (induction ps arbitrary: s) (simp_all add: seq_Cons)

lemma prepare_step_flow: "fst (prepare_step c env s) = Next"
  by (simp add: prepare_step_def Let_def split: option.splits)

lemma target_step_flow:
  "fst (target_step c s) = Next"
  "targetCmd (snd (target_step c s))
     = (if RunThroughSnap (Run c) then [''snap'', ''run''] @ Cmd (Run c) else Cmd (Run c))"
  by (simp_all add: target_step_def)

lemma channel_flow:
  "fst (seq [tempdir_step i env, mkfifo_step i env, openfifo_step i env, reader_step i,
        trace_exec_step i env] s)
     = (case tempdir_result env of Some e \<Rightarrow> ReturnErr e | None \<Rightarrow>
        (case mkfifo_result env of Some e \<Rightarrow> ReturnErr e | None \<Rightarrow>
        (case openfifo_result env of Some e \<Rightarrow> ReturnErr e | None \<Rightarrow>
        (case trace_exec_result env of Some e \<Rightarrow> ReturnErr e | None \<Rightarrow> Next))))"
proof -
  have 1: "fst (tempdir_step i env s) = (case tempdir_result env of Some e \<Rightarrow> ReturnErr e
      | None \<Rightarrow> Next)" for s
    by (simp add: tempdir_step_def Let_def split: option.splits)
  have 2: "fst (mkfifo_step i env s) = (case mkfifo_result env of Some e \<Rightarrow> ReturnErr e
      | None \<Rightarrow> Next)" for s
    by (simp add: mkfifo_step_def Let_def split: option.splits)
  have 3: "fst (openfifo_step i env s) = (case openfifo_result env of Some e \<Rightarrow> ReturnErr e
      | None \<Rightarrow> Next)" for s
    by (simp add: openfifo_step_def Let_def split: option.splits)
  have 4: "fst (reader_step i s) = Next" for s
    by (simp add: reader_step_def)
  have 5: "fst (trace_exec_step i env s) = (case trace_exec_result env of
      Some e \<Rightarrow> ReturnErr e | None \<Rightarrow> Next)" for s
    by (simp add: trace_exec_step_def Let_def split: option.splits)
  show ?thesis
    by (simp add: seq_Cons 1 2 3 4 5 split: option.splits)
qed

lemma command_step_flow:
  "fst (command_step c i env s)
     = (if \<not> NoTrace (Run c) then
          (case tempdir_result env of Some e \<Rightarrow> ReturnErr e | None \<Rightarrow>
          (case mkfifo_result env of Some e \<Rightarrow> ReturnErr e | None \<Rightarrow>
          (case openfifo_result env of Some e \<Rightarrow> ReturnErr e | None \<Rightarrow>
          (case trace_exec_result env of Some e \<Rightarrow> ReturnErr e | None \<Rightarrow> Next))))
        else if targetCmd s = [] then Panic ''index out of range'' else Next)"
  by (simp add: command_step_def channel_flow exec_command_step_def split: list.splits)

lemma log_step_flow:
  "fst (log_step path res s)
     = (if path \<noteq> [] then (case res of Some e \<Rightarrow> ReturnErr e | None \<Rightarrow> Next) else Next)"
  by (simp add: log_step_def Let_def split: option.splits)

lemma command_step_targetCmd: "targetCmd (snd (command_step c i env s)) = targetCmd s"
proof (cases "NoTrace (Run c)")
  case True
  then show ?thesis
    by (simp add: step_defs split: list.splits)
next
  case False
  have "targetCmd (snd (seq [tempdir_step i env, mkfifo_step i env, openfifo_step i env,
      reader_step i, trace_exec_step i env] s)) = targetCmd s"
    by (rule seq_frame) (auto simp: step_defs Let_def split: option.splits)
  with False show ?thesis
    by (simp add: command_step_def)
qed

lemma setup_flow:
  assumes "Cmd (Run c) \<noteq> []"
  shows "fst (seq (setup_steps c i env) s) = Next \<longleftrightarrow> setup_ok c env"
    and "\<not> setup_ok c env \<Longrightarrow> \<exists>e. fst (seq (setup_steps c i env) s) = ReturnErr e"
  using assms
  by (auto simp: setup_steps_def seq_Cons prepare_step_flow target_step_flow
      command_step_flow log_step_flow setup_ok_def split: option.splits)

lemma seq_flatten: "seq (seq ps # qs) s = seq (ps @ qs) s"
  by (simp add: seq_Cons seq_append)

lemma trial_steps:
  "trial c i env s = seq (setup_steps c i env @ discard_step c env # tail_steps c i env) s"
proof -
  have "launch c i env = seq (setup_steps c i env
      @ [discard_step c env, windowspec_step c, free_caches_step env, start_step env])"
    by (simp add: launch_def setup_steps_def)
  then have "trial c i env s = seq ((setup_steps c i env
      @ [discard_step c env, windowspec_step c, free_caches_step env, start_step env])
      @ [cascade c env, finish c i env]) s"
    by (simp add: trial_def seq_flatten)
  then show ?thesis
    by (simp add: tail_steps_def)
qed

lemma setup_appends:
  "appends (\<lambda>e. e \<noteq> Start \<and> discards [e] = []) (seq (setup_steps c i env))"
proof -
  let ?Q = "\<lambda>e. e \<noteq> Start \<and> discards [e] = []"
  have "appends ?Q (prepare_step c env)"
    by (rule appendsI) (simp add: step_defs Let_def split: option.splits)
  moreover have "appends ?Q (target_step c)"
    by (rule appendsI) (simp add: step_defs)
  moreover have "appends ?Q (command_step c i env)"
  proof (cases "NoTrace (Run c)")
    case True
    then show ?thesis
      by (intro appendsI) (simp add: step_defs split: list.splits)
  next
    case False
    have "appends ?Q (seq [tempdir_step i env, mkfifo_step i env,
        openfifo_step i env, reader_step i, trace_exec_step i env])"
      by (rule appends_seq) (auto intro!: appendsI simp: step_defs Let_def split: option.splits)
    with False show ?thesis
      by (simp add: command_step_def)
  qed
  moreover have "appends ?Q (log_step path res)" for path res
    by (rule appendsI) (simp add: step_defs Let_def split: option.splits)
  ultimately show ?thesis
    unfolding setup_steps_def by (intro appends_seq) auto
qed

lemma tail_appends: "appends (\<lambda>e. discards [e] = []) (seq (tail_steps c i env))"
proof -
  let ?Q = "\<lambda>e. discards [e] = []"
  have "appends ?Q (windowspec_step c)"
    by (rule appendsI) (simp add: step_defs Let_def split: option.splits)
  moreover have "appends ?Q (free_caches_step env)"
    by (rule appendsI) (simp add: step_defs Let_def split: option.splits)
  moreover have "appends ?Q (start_step env)"
    by (rule appendsI) (simp add: step_defs)
  moreover have "cascade_event e \<Longrightarrow> discards [e] = []" for e
    by (cases e) simp_all
  then have "appends ?Q (cascade c env)"
    by (rule appends_mono [OF cascade_appends])
  moreover have "finish_event e \<Longrightarrow> discards [e] = []" for e
    by (cases e) simp_all
  then have "appends ?Q (finish c i env)"
    by (rule appends_mono [OF finish_appends])
  ultimately show ?thesis
    unfolding tail_steps_def by (intro appends_seq) auto
qed

lemma no_discards: "list_all (\<lambda>e. discards [e] = []) evs \<Longrightarrow> discards evs = []"
proof (induction evs)
  case Nil
  show ?case by simp
next
  case (Cons x evs)
  have "discards (x # evs) = discards [x] @ discards evs"
    using discards_append [of "[x]" evs] by simp
  with Cons show ?case by simp
qed

lemma no_Start: "list_all (\<lambda>e. e \<noteq> Start \<and> discards [e] = []) evs \<Longrightarrow> Start \<notin> set evs"
  by (induction evs) auto

lemma no_discards': "list_all (\<lambda>e. e \<noteq> Start \<and> discards [e] = []) evs \<Longrightarrow> discards evs = []"
  by (rule no_discards) (simp add: list_all_iff)

lemma precedes_absent: "b \<notin> set xs \<Longrightarrow> precedes a b xs"
  by (induction xs) auto

lemma precedes_here: "b \<notin> set xs \<Longrightarrow> precedes a b (xs @ a # ys)"
  by (induction xs) auto

text \<open>
  Claim C6: with the namespace-discard option set and the \<^verbatim>\<open>snap run\<close> flag unset, the
  run aborts with a configuration error before any target process is started; with both
  set, the namespace discard is keyed on the first token of the original command.

  The check stands at line 229, after the trace channel and the log files were set up, and
  each of these can return first with its own error: on the sample input with the discard
  option, a failing \<^verbatim>\<open>ioutil.TempDir\<close> ends the run with that error.
\<close>

theorem discard_check_comes_late:
  "observable (Execute (sample_cmd\<lparr>Run := sample_run\<lparr>DiscardSnapNs := True\<rparr>\<rparr>)
       (all_trials (sample_env\<lparr>tempdir_result := Some ''no space left on device''\<rparr>)))
   = (ReturnErr ''no space left on device'', [], [], [TempDir 0], [])"
  by (simp add: eval_defs observable_def)

text \<open>
  Claim C6, amended: with the namespace-discard option set, for a command that is not
  empty: without the \<^verbatim>\<open>snap run\<close> flag the trial returns an error and never starts the
  target process, and the error is the configuration error whenever the setup before the
  check succeeds; with the flag, the namespace is discarded once, for the first token of
  the original command, if the setup succeeds (and not at all otherwise), and before the
  process is started.
\<close>

theorem discard_needs_snap_run:
  assumes "DiscardSnapNs (Run c)" and "Cmd (Run c) \<noteq> []"
  shows "(\<not> RunThroughSnap (Run c) \<longrightarrow>
            (\<exists>e. fst (trial c i env s) = ReturnErr e)
            \<and> Start \<notin> set (emitted s (snd (trial c i env s)))
            \<and> (setup_ok c env \<longrightarrow> fst (trial c i env s)
                  = ReturnErr ''cannot use --discard-snap-ns without --use-snap-run''))
       \<and> (RunThroughSnap (Run c) \<longrightarrow>
            discards (emitted s (snd (trial c i env s)))
              = (if setup_ok c env then [hd (Cmd (Run c))] else [])
            \<and> precedes (SnapsDiscardSnapNs (hd (Cmd (Run c)))) Start
                (emitted s (snd (trial c i env s))))"
proof -
  define sp where "sp = snd (seq (setup_steps c i env) s)"
  define ep where "ep = emitted s sp"
  have ep: "trace sp = trace s @ ep" "list_all (\<lambda>e. e \<noteq> Start \<and> discards [e] = []) ep"
    using appends_emitted [OF setup_appends [of c i env], of s] by (simp_all add: sp_def ep_def)
  have ep_quiet: "Start \<notin> set ep" "discards ep = []"
    using ep(2) by (rule no_Start, rule no_discards')
  obtain name rest where cmd: "Cmd (Run c) = name # rest"
    using assms(2) by (cases "Cmd (Run c)") auto
  let ?D = "SnapsDiscardSnapNs name"
  have t: "trial c i env s =
      (if fst (seq (setup_steps c i env) s) = Next then
         (if fst (discard_step c env sp) = Next
          then seq (tail_steps c i env) (snd (discard_step c env sp))
          else discard_step c env sp)
       else seq (setup_steps c i env) s)"
    by (simp add: trial_steps seq_append seq_Cons sp_def)
  show ?thesis
  proof (cases "setup_ok c env")
    case False
    then obtain e where e: "fst (seq (setup_steps c i env) s) = ReturnErr e"
      using setup_flow(2) [OF assms(2)] by blast
    then have "trial c i env s = seq (setup_steps c i env) s"
      by (simp add: t)
    then have "fst (trial c i env s) = ReturnErr e" "emitted s (snd (trial c i env s)) = ep"
      using e by (simp_all add: ep_def sp_def)
    with False ep_quiet show ?thesis
      by (simp add: precedes_absent)
  next
    case True
    then have ok: "fst (seq (setup_steps c i env) s) = Next"
      using setup_flow(1) [OF assms(2)] by simp
    show ?thesis
    proof (cases "RunThroughSnap (Run c)")
      case False
      then have "discard_step c env sp
          = (ReturnErr ''cannot use --discard-snap-ns without --use-snap-run'', sp)"
        using assms(1) by (simp add: discard_step_def)
      then have "trial c i env s
          = (ReturnErr ''cannot use --discard-snap-ns without --use-snap-run'', sp)"
        using ok by (simp add: t)
      with False ep_quiet show ?thesis
        by (simp add: ep_def)
    next
      case snap: True
      show ?thesis
      proof (cases "discard_ns_result env")
        case (Some e)
        then have "discard_step c env sp = (ReturnErr e, emit ?D sp)"
          using assms(1) snap cmd by (simp add: discard_step_def Let_def)
        then have "trial c i env s = (ReturnErr e, emit ?D sp)"
          using ok by (simp add: t)
        moreover have "emitted s (emit ?D sp) = ep @ [?D]"
          by (rule emitted_append) (simp add: emit_def ep(1))
        ultimately show ?thesis
          using snap True ep_quiet cmd by (simp add: precedes_here)
      next
        case None
        then have d: "discard_step c env sp = (Next, emit ?D sp)"
          using assms(1) snap cmd by (simp add: discard_step_def Let_def)
        define sf where "sf = snd (seq (tail_steps c i env) (emit ?D sp))"
        have tr: "snd (trial c i env s) = sf"
          using ok d by (simp add: t sf_def)
        define et where "et = emitted (emit ?D sp) sf"
        have et: "trace sf = trace (emit ?D sp) @ et" "list_all (\<lambda>e. discards [e] = []) et"
          using appends_emitted [OF tail_appends [of c i env], of "emit ?D sp"]
          by (simp_all add: sf_def et_def)
        have "trace sf = trace s @ (ep @ ?D # et)"
          using et(1) ep(1) by (simp add: emit_def)
        then have "emitted s sf = ep @ ?D # et"
          by (rule emitted_append)
        moreover have "discards et = []"
          using et(2) by (rule no_discards)
        ultimately show ?thesis
          using snap True ep_quiet cmd by (simp add: tr precedes_here)
      qed
    qed
  qed
qed

theorem discard_needs_snap_run_witness:
  "DiscardSnapNs (Run snap_cmd) \<and> Cmd (Run snap_cmd) \<noteq> [] \<and> RunThroughSnap (Run snap_cmd)
   \<and> setup_ok snap_cmd sample_env
   \<and> targetCmd (snd (trial snap_cmd 0 sample_env init)) = [''snap'', ''run'', ''chromium'']
   \<and> discards (emitted init (snd (trial snap_cmd 0 sample_env init))) = [''chromium'']
   \<and> fst (trial (snap_cmd\<lparr>Run := Run snap_cmd\<lparr>RunThroughSnap := False\<rparr>\<rparr>) 0 sample_env init)
     = ReturnErr ''cannot use --discard-snap-ns without --use-snap-run''
   \<and> Start \<notin> set (emitted init
        (snd (trial (snap_cmd\<lparr>Run := Run snap_cmd\<lparr>RunThroughSnap := False\<rparr>\<rparr>) 0 sample_env init)))"
proof -
  define c' where "c' = snap_cmd\<lparr>Run := Run snap_cmd\<lparr>RunThroughSnap := False\<rparr>\<rparr>"
  have h1: "DiscardSnapNs (Run snap_cmd)" and h2: "Cmd (Run snap_cmd) \<noteq> []"
    and h3: "RunThroughSnap (Run snap_cmd)" and h4: "setup_ok snap_cmd sample_env"
    by (simp_all add: sample_defs setup_ok_def)
  have g1: "DiscardSnapNs (Run c')" and g2: "Cmd (Run c') \<noteq> []"
    and g3: "\<not> RunThroughSnap (Run c')" and g4: "setup_ok c' sample_env"
    by (simp_all add: c'_def sample_defs setup_ok_def)
  have tc: "targetCmd (snd (trial snap_cmd 0 sample_env init)) = [''snap'', ''run'', ''chromium'']"
    by (simp add: eval_defs)
  have hd: "hd (Cmd (Run snap_cmd)) = ''chromium''"
    by (simp add: sample_defs)
  show ?thesis
    using discard_needs_snap_run [OF h1 h2, of 0 sample_env init]
      discard_needs_snap_run [OF g1 g2, of 0 sample_env init] h1 h2 h3 h4 g3 g4 tc hd
    unfolding c'_def [symmetric] by simp
qed

section \<open>The error of \<^verbatim>\<open>cmd.Start()\<close>\<close>

lemma err_blindI:
  assumes "\<And>s a. fst (f (s\<lparr>err := a\<rparr>)) = fst (f s)"
    and "\<And>s a. (snd (f (s\<lparr>err := a\<rparr>)))\<lparr>err := None\<rparr> = (snd (f s))\<lparr>err := None\<rparr>"
  shows "err_blind f"
  unfolding err_blind_def
proof (intro allI)
  fix s :: state and a
  define X where "X = snd (f (s\<lparr>err := a\<rparr>))"
  define Y where "Y = snd (f s)"
  have "X\<lparr>err := None\<rparr> = Y\<lparr>err := None\<rparr>"
    using assms(2) by (simp add: X_def Y_def)
  then have "(X\<lparr>err := None\<rparr>)\<lparr>err := err X\<rparr> = (Y\<lparr>err := None\<rparr>)\<lparr>err := err X\<rparr>"
    by simp
  then have "X = Y\<lparr>err := err X\<rparr>"
    by simp
  moreover have "fst (f (s\<lparr>err := a\<rparr>)) = fst (f s)"
    by (rule assms(1))
  ultimately have "f (s\<lparr>err := a\<rparr>) = (fst (f s), Y\<lparr>err := err X\<rparr>)"
    by (metis X_def prod.collapse)
  then show "\<exists>a'. f (s\<lparr>err := a\<rparr>) = (fst (f s), (snd (f s))\<lparr>err := a'\<rparr>)"
    unfolding Y_def by blast
qed

lemma err_blind_seq:
  assumes "\<And>p. p \<in> set ps \<Longrightarrow> err_blind p"
  shows "err_blind (seq ps)"
  using assms
proof (induction ps)
  case Nil
  show ?case
    by (auto simp: err_blind_def)
next
  case (Cons p ps)
  have p: "err_blind p" and rest: "err_blind (seq ps)"
    using Cons by simp_all
  show ?case
    unfolding err_blind_def
  proof (intro allI)
    fix s :: state and a
    obtain a' where a': "p (s\<lparr>err := a\<rparr>) = (fst (p s), (snd (p s))\<lparr>err := a'\<rparr>)"
      using p unfolding err_blind_def by blast
    show "\<exists>b. seq (p # ps) (s\<lparr>err := a\<rparr>)
        = (fst (seq (p # ps) s), (snd (seq (p # ps) s))\<lparr>err := b\<rparr>)"
    proof (cases "fst (p s) = Next")
      case True
      obtain b where "seq ps ((snd (p s))\<lparr>err := a'\<rparr>)
          = (fst (seq ps (snd (p s))), (snd (seq ps (snd (p s))))\<lparr>err := b\<rparr>)"
        using rest unfolding err_blind_def by blast
      with True a' show ?thesis
        by (auto simp: seq_Cons intro: exI [of _ b])
    next
      case False
      with a' show ?thesis
        by (auto simp: seq_Cons)
    qed
  qed
qed

lemma resolve_pids_err:
  "resolve_pids c env i ws (s\<lparr>err := a\<rparr>) = (resolve_pids c env i ws s)\<lparr>err := a\<rparr>"
proof (induction ws arbitrary: i s)
  case Nil
  show ?case by simp
next
  case (Cons wid rest)
  obtain pid r where res: "pid_for_window_result env wid = (pid, r)"
    by (cases "pid_for_window_result env wid")
  show ?case
  proof (cases r)
    case (Some e)
    with res show ?thesis
      by (simp add: logError_def emit_def Let_def)
  next
    case None
    define s1 where "s1 = (emit (PidForWindowID wid) s)\<lparr>pids := (pids s)[i := pid]\<rparr>"
    have comm: "(emit (PidForWindowID wid) (s\<lparr>err := a\<rparr>))\<lparr>pids := (pids s)[i := pid]\<rparr>
        = s1\<lparr>err := a\<rparr>"
      by (simp add: s1_def emit_def)
    have "resolve_pids c env i (wid # rest) (s\<lparr>err := a\<rparr>)
        = resolve_pids c env (Suc i) rest
            ((emit (PidForWindowID wid) (s\<lparr>err := a\<rparr>))\<lparr>pids := (pids s)[i := pid]\<rparr>)"
      using res None by (simp add: Let_def emit_def)
    also have "\<dots> = resolve_pids c env (Suc i) rest (s1\<lparr>err := a\<rparr>)"
      by (simp only: comm)
    also have "\<dots> = (resolve_pids c env (Suc i) rest s1)\<lparr>err := a\<rparr>"
      by (rule Cons.IH)
    also have "resolve_pids c env (Suc i) rest s1 = resolve_pids c env i (wid # rest) s"
      using res None by (simp add: Let_def emit_def s1_def)
    finally show ?thesis .
  qed
qed

lemma kill_pids_err:
  "kill_pids c env ps (s\<lparr>err := a\<rparr>) = (kill_pids c env ps s)\<lparr>err := a\<rparr>"
proof (induction ps arbitrary: s)
  case Nil
  show ?case by simp
next
  case (Cons pid rest)
  define step where "step = (\<lambda>s. case signal_result env pid of
       Some e \<Rightarrow>
         if \<not> Contains e ''process already finished'' then
           (logError c (''killing window process pid '' @ show_int pid @ '': '' @ e)
              (emit (Signal pid) s))\<lparr>tryWmctrl := True\<rparr>
         else emit (Signal pid) s
     | None \<Rightarrow> emit (Signal pid) s)"
  have k: "kill_pids c env (pid # rest) s = kill_pids c env rest (step s)" for s
    by (simp add: step_def Let_def)
  have "step (s\<lparr>err := a\<rparr>) = (step s)\<lparr>err := a\<rparr>"
    by (simp add: step_def emit_def logError_def Let_def split: option.splits)
  then show ?case
    by (simp only: k Cons.IH)
qed

lemma close_windows_err:
  "(close_windows c env ws (s\<lparr>err := a\<rparr>))\<lparr>err := None\<rparr>
     = (close_windows c env ws s)\<lparr>err := None\<rparr>"
proof (cases ws)
  case Nil
  then show ?thesis by simp
next
  case (Cons wid rest)
  have "(emit (CloseWindowID wid) (s\<lparr>err := a\<rparr>))\<lparr>err := close_window_result env wid\<rparr>
      = (emit (CloseWindowID wid) s)\<lparr>err := close_window_result env wid\<rparr>"
    by (simp add: emit_def)
  then show ?thesis
    by (simp add: Cons Let_def)
qed

lemma same_but_err:
  assumes "X\<lparr>err := None\<rparr> = Y\<lparr>err := None\<rparr>"
  shows "X = Y\<lparr>err := err X\<rparr>"
proof -
  from assms have "(X\<lparr>err := None\<rparr>)\<lparr>err := err X\<rparr> = (Y\<lparr>err := None\<rparr>)\<lparr>err := err X\<rparr>"
    by simp
  then show ?thesis
    by simp
qed

lemma xtool_step_unfold:
  assumes "tryXToolClose t"
  shows "snd (xtool_step c env t)
    = kill_pids c env
        (pids (resolve_pids c env 0 (wids t) (t\<lparr>pids := replicate (length (wids t)) 0\<rparr>)))
        (close_windows c env (wids t)
          (resolve_pids c env 0 (wids t) (t\<lparr>pids := replicate (length (wids t)) 0\<rparr>)))"
  using assms
  by (simp add: xtool_step_def Let_def resolve_pids_frame close_windows_frame)

lemma xtool_step_err_blind: "err_blind (xtool_step c env)"
proof (rule err_blindI)
  fix s :: state and a
  show "fst (xtool_step c env (s\<lparr>err := a\<rparr>)) = fst (xtool_step c env s)"
    by (simp add: xtool_step_frame)
  show "(snd (xtool_step c env (s\<lparr>err := a\<rparr>)))\<lparr>err := None\<rparr>
      = (snd (xtool_step c env s))\<lparr>err := None\<rparr>"
  proof (cases "tryXToolClose s")
    case False
    then show ?thesis
      by (simp add: xtool_step_def)
  next
    case True
    define s1 where "s1 = s\<lparr>pids := replicate (length (wids s)) 0\<rparr>"
    define s2 where "s2 = resolve_pids c env 0 (wids s) s1"
    define X where "X = close_windows c env (wids s) (s2\<lparr>err := a\<rparr>)"
    define Y where "Y = close_windows c env (wids s) s2"
    have comm: "(s\<lparr>err := a\<rparr>)\<lparr>pids := replicate (length (wids s)) 0\<rparr> = s1\<lparr>err := a\<rparr>"
      by (simp add: s1_def)
    have r: "resolve_pids c env 0 (wids s) (s1\<lparr>err := a\<rparr>) = s2\<lparr>err := a\<rparr>"
      by (simp add: s2_def resolve_pids_err)
    have "snd (xtool_step c env (s\<lparr>err := a\<rparr>))
        = kill_pids c env
            (pids (resolve_pids c env 0 (wids s)
              ((s\<lparr>err := a\<rparr>)\<lparr>pids := replicate (length (wids s)) 0\<rparr>)))
            (close_windows c env (wids s)
              (resolve_pids c env 0 (wids s)
                ((s\<lparr>err := a\<rparr>)\<lparr>pids := replicate (length (wids s)) 0\<rparr>)))"
      using xtool_step_unfold [where t = "s\<lparr>err := a\<rparr>"] True by simp
    then have left: "snd (xtool_step c env (s\<lparr>err := a\<rparr>)) = kill_pids c env (pids s2) X"
      by (simp only: comm r X_def) simp
    have right: "snd (xtool_step c env s) = kill_pids c env (pids s2) Y"
      using xtool_step_unfold [OF True] by (simp add: s1_def s2_def Y_def)
    have "X\<lparr>err := None\<rparr> = Y\<lparr>err := None\<rparr>"
      unfolding X_def Y_def by (rule close_windows_err)
    then have "X = Y\<lparr>err := err X\<rparr>"
      by (rule same_but_err)
    then have "kill_pids c env (pids s2) X = (kill_pids c env (pids s2) Y)\<lparr>err := err X\<rparr>"
      using kill_pids_err [where s = Y and a = "err X"] by simp
    then show ?thesis
      by (simp add: left right)
  qed
qed

lemma cascade_err_blind: "err_blind (cascade c env)"
proof -
  have "err_blind (wait_step c env)"
    by (rule err_blindI) (simp_all add: step_defs Let_def split: option.splits)
  moreover have "err_blind (wmctrl_step c env)"
    by (rule err_blindI) (auto simp: step_defs Let_def split: option.splits prod.splits)
  ultimately show ?thesis
    unfolding cascade_def using xtool_step_err_blind by (intro err_blind_seq) auto
qed

lemma finish_err_blind: "err_blind (finish c i env)"
proof -
  have "err_blind (collect_step c i env)"
    by (rule err_blindI) (simp_all add: step_defs Let_def split: option.splits)
  moreover have "err_blind (restore_step c env)"
    by (rule err_blindI) (simp_all add: step_defs Let_def split: option.splits)
  moreover have "err_blind (record_step c)"
    by (rule err_blindI) (simp_all add: step_defs Let_def split: option.splits)
  ultimately show ?thesis
    unfolding finish_def by (intro err_blind_seq) auto
qed

lemma observable_blind:
  assumes "err_blind f"
  shows "observable (f (s\<lparr>err := x\<rparr>)) = observable (f s)"
proof -
  obtain a' where "f (s\<lparr>err := x\<rparr>) = (fst (f s), (snd (f s))\<lparr>err := a'\<rparr>)"
    using assms unfolding err_blind_def by blast
  then show ?thesis
    by (simp add: observable_def)
qed

text \<open>No statement but \<^verbatim>\<open>err = cmd.Start()\<close> depends on what \<^verbatim>\<open>cmd.Start()\<close> returns.\<close>

lemma resolve_pids_start:
  "resolve_pids c (env\<lparr>start_result := r\<rparr>) i ws s = resolve_pids c env i ws s"
  by (induction ws arbitrary: i s) (simp_all add: Let_def split: prod.splits option.splits)

lemma close_windows_start:
  "close_windows c (env\<lparr>start_result := r\<rparr>) ws s = close_windows c env ws s"
  by (induction ws arbitrary: s) (simp_all add: Let_def)

lemma kill_pids_start:
  "kill_pids c (env\<lparr>start_result := r\<rparr>) ps s = kill_pids c env ps s"
  by (induction ps arbitrary: s) (simp_all add: Let_def)

lemma steps_start:
  "setup_steps c i (env\<lparr>start_result := r\<rparr>) = setup_steps c i env"
  "discard_step c (env\<lparr>start_result := r\<rparr>) = discard_step c env"
  "free_caches_step (env\<lparr>start_result := r\<rparr>) = free_caches_step env"
  "cascade c (env\<lparr>start_result := r\<rparr>) = cascade c env"
  "finish c i (env\<lparr>start_result := r\<rparr>) = finish c i env"
proof -
  have "prepare_step c (env\<lparr>start_result := r\<rparr>) = prepare_step c env"
    by (rule ext) (simp add: prepare_step_def)
  moreover have "tempdir_step i (env\<lparr>start_result := r\<rparr>) = tempdir_step i env"
    by (rule ext) (simp add: tempdir_step_def)
  moreover have "mkfifo_step i (env\<lparr>start_result := r\<rparr>) = mkfifo_step i env"
    by (rule ext) (simp add: mkfifo_step_def)
  moreover have "openfifo_step i (env\<lparr>start_result := r\<rparr>) = openfifo_step i env"
    by (rule ext) (simp add: openfifo_step_def)
  moreover have "trace_exec_step i (env\<lparr>start_result := r\<rparr>) = trace_exec_step i env"
    by (rule ext) (simp add: trace_exec_step_def)
  ultimately show "setup_steps c i (env\<lparr>start_result := r\<rparr>) = setup_steps c i env"
    by (simp add: setup_steps_def command_step_def)
  show "discard_step c (env\<lparr>start_result := r\<rparr>) = discard_step c env"
    by (rule ext) (simp add: discard_step_def Let_def split: list.splits)
  show "free_caches_step (env\<lparr>start_result := r\<rparr>) = free_caches_step env"
    by (rule ext) (simp add: free_caches_step_def)
  have "wait_step c (env\<lparr>start_result := r\<rparr>) = wait_step c env"
    by (rule ext) (simp add: wait_step_def)
  moreover have "xtool_step c (env\<lparr>start_result := r\<rparr>) = xtool_step c env"
    by (rule ext)
      (simp add: xtool_step_def resolve_pids_start close_windows_start kill_pids_start)
  moreover have "wmctrl_step c (env\<lparr>start_result := r\<rparr>) = wmctrl_step c env"
    by (rule ext) (simp add: wmctrl_step_def wmctrlCloseWindow_def)
  ultimately show "cascade c (env\<lparr>start_result := r\<rparr>) = cascade c env"
    by (simp add: cascade_def)
  have "collect_step c i (env\<lparr>start_result := r\<rparr>) = collect_step c i env"
    by (rule ext) (simp add: collect_step_def)
  moreover have "restore_step c (env\<lparr>start_result := r\<rparr>) = restore_step c env"
    by (rule ext) (simp add: restore_step_def)
  ultimately show "finish c i (env\<lparr>start_result := r\<rparr>) = finish c i env"
    by (simp add: finish_def)
qed

lemma trial_start:
  "observable (trial c i env s)
     = (let A = setup_steps c i env
              @ [discard_step c env, windowspec_step c, free_caches_step env]
        in if fst (seq A s) = Next
           then observable (seq [cascade c env, finish c i env] (emit Start (snd (seq A s))))
           else observable (seq A s))"
proof -
  define A where "A = setup_steps c i env
      @ [discard_step c env, windowspec_step c, free_caches_step env]"
  define B where "B = [cascade c env, finish c i env]"
  have blind: "err_blind (seq B)"
    unfolding B_def using cascade_err_blind finish_err_blind by (intro err_blind_seq) auto
  have "trial c i env s = seq (A @ start_step env # B) s"
    by (simp add: trial_steps tail_steps_def A_def B_def)
  also have "\<dots> = (if fst (seq A s) = Next
      then seq B ((emit Start (snd (seq A s)))\<lparr>err := start_result env\<rparr>) else seq A s)"
    by (simp add: seq_append seq_Cons start_step_def)
  finally have "observable (trial c i env s) = (if fst (seq A s) = Next
      then observable (seq B ((emit Start (snd (seq A s)))\<lparr>err := start_result env\<rparr>))
      else observable (seq A s))"
    by simp
  then have "observable (trial c i env s) = (if fst (seq A s) = Next
      then observable (seq B (emit Start (snd (seq A s)))) else observable (seq A s))"
    by (simp only: observable_blind [OF blind])
  then show ?thesis
    by (simp add: A_def B_def Let_def)
qed

lemma start_result_unobservable:
  "observable (trial c i (env\<lparr>start_result := r\<rparr>) s)
     = observable (trial c i (env\<lparr>start_result := r'\<rparr>) s)"
  by (simp only: trial_start steps_start)

lemma xtool_step_appends: "appends cascade_event (xtool_step c env)"
proof (rule appendsI)
  fix s :: state
  define s1 where "s1 = s\<lparr>pids := replicate (length (wids s)) 0\<rparr>"
  define s2 where "s2 = resolve_pids c env 0 (wids s1) s1"
  define s3 where "s3 = close_windows c env (wids s2) s2"
  define s4 where "s4 = kill_pids c env (pids s3) s3"
  obtain e2 where e2: "trace s2 = trace s1 @ e2" "list_all cascade_event e2"
    unfolding s2_def using resolve_pids_trace by blast
  obtain e3 where e3: "trace s3 = trace s2 @ e3" "list_all cascade_event e3"
    unfolding s3_def using close_windows_trace by blast
  obtain e4 where e4: "trace s4 = trace s3 @ e4" "list_all cascade_event e4"
    unfolding s4_def using kill_pids_trace by blast
  have "trace s4 = trace s @ (e2 @ e3 @ e4)" "list_all cascade_event (e2 @ e3 @ e4)"
    using e2 e3 e4 by (simp_all add: s1_def)
  moreover have "xtool_step c env s = (if tryXToolClose s then (Next, s4) else (Next, s))"
    by (simp add: xtool_step_def Let_def s1_def s2_def s3_def s4_def)
  ultimately show "\<exists>evs. trace (snd (xtool_step c env s)) = trace s @ evs
      \<and> list_all cascade_event evs"
    by (cases "tryXToolClose s") auto
qed

lemma wmctrl_step_appends: "appends cascade_event (wmctrl_step c env)"
  by (rule appendsI) (auto simp: step_defs Let_def split: option.splits prod.splits)

lemma wait_step_event:
  "\<exists>evs. trace (snd (wait_step c env s))
     = trace s @ (if NoWindowWait (Run c) then Wait else WaitForWindow (windowspec s)) # evs"
  by (simp add: wait_step_def emit_def logError_def Let_def split: option.splits)

lemma trial_waits:
  assumes "launch c i env s = (Next, s1)"
  shows "(if NoWindowWait (Run c) then Wait else WaitForWindow (windowspec s1))
    \<in> set (emitted s1 (snd (trial c i env s)))"
proof -
  define W where "W = (if NoWindowWait (Run c) then Wait else WaitForWindow (windowspec s1))"
  define sw where "sw = snd (wait_step c env s1)"
  define sx where "sx = snd (xtool_step c env sw)"
  define sm where "sm = snd (wmctrl_step c env sx)"
  define sf where "sf = snd (finish c i env sm)"
  obtain ew where ew: "trace sw = trace s1 @ W # ew"
    using wait_step_event [of c env s1] by (auto simp: sw_def W_def)
  obtain ex where ex: "trace sx = trace sw @ ex"
    using xtool_step_appends [of c env] unfolding appends_def sx_def by blast
  obtain em where em: "trace sm = trace sx @ em"
    using wmctrl_step_appends [of c env] unfolding appends_def sm_def by blast
  obtain ef where ef: "trace sf = trace sm @ ef"
    using finish_appends [of c i env] unfolding appends_def sf_def by blast
  have "snd (trial c i env s) = sf"
    using assms by (simp add: trial_eq cascade_eq sf_def sm_def sx_def sw_def)
  moreover have "trace sf = trace s1 @ (W # ew @ ex @ em @ ef)"
    using ew ex em ef by simp
  then have "emitted s1 sf = W # ew @ ex @ em @ ef"
    by (rule emitted_append)
  ultimately show ?thesis
    by (simp add: W_def)
qed

lemma launch_start:
  assumes "launch c i env s = (Next, s1)"
  obtains s8 where "s1 = (emit Start s8)\<lparr>err := start_result env\<rparr>"
    and "launch c i (env\<lparr>start_result := r\<rparr>) s = (Next, (emit Start s8)\<lparr>err := r\<rparr>)"
proof -
  define A where "A = setup_steps c i env
      @ [discard_step c env, windowspec_step c, free_caches_step env]"
  have l: "launch c i e = seq (setup_steps c i e
      @ [discard_step c e, windowspec_step c, free_caches_step e] @ [start_step e])" for e
    by (simp add: launch_def setup_steps_def)
  have 1: "launch c i env s = (if fst (seq A s) = Next
      then (Next, (emit Start (snd (seq A s)))\<lparr>err := start_result env\<rparr>) else seq A s)"
    using l [of env] seq_append [of A "[start_step env]" s]
    by (simp add: A_def start_step_def)
  have 2: "launch c i (env\<lparr>start_result := r\<rparr>) s = (if fst (seq A s) = Next
      then (Next, (emit Start (snd (seq A s)))\<lparr>err := r\<rparr>) else seq A s)"
    using l [of "env\<lparr>start_result := r\<rparr>"]
      seq_append [of A "[start_step (env\<lparr>start_result := r\<rparr>)]" s]
    by (simp add: A_def start_step_def steps_start)
  have ok: "fst (seq A s) = Next"
    using assms 1 by (auto split: if_splits)
  show ?thesis
    using that [of "snd (seq A s)"] assms 1 2 ok by simp
qed

lemma record_step_flow: "fst (record_step c s) \<noteq> ReturnErr e"
  by (simp add: record_step_def Let_def split: option.splits)


lemma finish_err: "err (snd (finish c i env s)) = err s"
  by (simp add: finish_eq step_defs Let_def split: option.splits)

lemma err_stays_without_window_wait:
  assumes "launch c i env s = (Next, s1)" and "NoWindowWait (Run c)"
  shows "err (snd (trial c i env s)) = err s1"
proof -
  have flags: "tryXToolClose s1" "\<not> tryWmctrl s1" "wids s1 = []"
    using launch_flags [OF assms(1)] by simp_all
  define sw where "sw = snd (wait_step c env s1)"
  have sw: "tryXToolClose sw" "\<not> tryWmctrl sw" "wids sw = []" "err sw = err s1"
    using flags assms(2) by (simp_all add: sw_def wait_step_def emit_def)
  have "snd (xtool_step c env sw) = sw\<lparr>pids := []\<rparr>"
    using sw by (simp add: xtool_step_def Let_def)
  then have "snd (cascade c env s1) = sw\<lparr>pids := []\<rparr>"
    using sw by (simp add: cascade_eq sw_def [symmetric] wmctrl_step_def)
  then show ?thesis
    using assms(1) sw(4) by (simp add: trial_eq finish_err)
qed

text \<open>
  Claim C9: when starting the target process fails, the error is neither appended to the
  error list nor does it abort the run; the value is discarded (overwritten by later
  assignments) and the trial proceeds to the window wait, the cascade and the record as if
  the process had started.

  With \<^verbatim>\<open>--no-window-wait\<close> there is no window wait and no later assignment: on the
  sample input the trial waits for the process to exit (\<open>Wait\<close>), and the variable
  \<^verbatim>\<open>err\<close> still holds the error of \<^verbatim>\<open>cmd.Start()\<close> when the trial ends.
\<close>

theorem start_error_stays_without_window_wait:
  "err (snd (trial (sample_cmd\<lparr>Run := sample_run\<lparr>NoWindowWait := True\<rparr>\<rparr>) 0
       (sample_env\<lparr>start_result := Some ''exec: not found''\<rparr>) init))
     = Some ''exec: not found''
   \<and> observable (trial (sample_cmd\<lparr>Run := sample_run\<lparr>NoWindowWait := True\<rparr>\<rparr>) 0
       (sample_env\<lparr>start_result := Some ''exec: not found''\<rparr>) init)
     = (Next, [],
        [\<lparr>ExecveTiming = Some \<lparr>TotalTime = 70\<rparr>, TimeToDisplay = 50, TimeToRun = 70,
          Errors = []\<rparr>],
        [TempDir 0, Mkfifo 0, OpenFifo 0, GoReader 0, TraceExecCommand 0 [''sample-app''],
         FreeCaches, Start, Wait, CloseFifo 0, AwaitDone 0],
        [CloseFifo 0, RemoveAll 0])"
  by (simp add: eval_defs observable_def)

text \<open>
  Claim C9, amended: in a trial that gets to \<^verbatim>\<open>cmd.Start()\<close> and whose start fails,
  the error is assigned to \<^verbatim>\<open>err\<close> and never read: it is not appended to the error
  list, the trial does not return an error, and it ends the same way, with the same
  errors, results, trace and deferred calls as the trial whose start succeeds. After
  \<open>Start\<close> the trial goes on to the wait (for the window, or for the process to exit
  with \<^verbatim>\<open>--no-window-wait\<close>), the cascade and the record: a trial that completes
  appends its record. When the window is waited for, the result of the wait overwrites
  the value; with \<^verbatim>\<open>--no-window-wait\<close> nothing does, and \<^verbatim>\<open>err\<close> holds it
  until the trial ends.
\<close>

theorem start_error_is_dropped:
  assumes "start_result env = Some e" and "launch c i env s = (Next, s1)"
  shows "err s1 = Some e \<and> last (trace s1) = Start
    \<and> errs s1 = errs (snd (launch c i (env\<lparr>start_result := None\<rparr>) s))
    \<and> observable (trial c i env s) = observable (trial c i (env\<lparr>start_result := None\<rparr>) s)
    \<and> (\<forall>e'. fst (trial c i env s) \<noteq> ReturnErr e')
    \<and> (if NoWindowWait (Run c) then Wait else WaitForWindow (windowspec s1))
        \<in> set (emitted s1 (snd (trial c i env s)))
    \<and> (if NoWindowWait (Run c) then err (snd (trial c i env s)) = Some e
       else err (snd (wait_step c env s1)) = snd (wait_for_window_result env))
    \<and> (fst (trial c i env s) = Next \<longrightarrow>
          (\<exists>r. outRes (snd (trial c i env s)) = outRes s @ [r]))"
proof -
  obtain s8 where s1: "s1 = (emit Start s8)\<lparr>err := start_result env\<rparr>"
    and l0: "launch c i (env\<lparr>start_result := None\<rparr>) s = (Next, (emit Start s8)\<lparr>err := None\<rparr>)"
    using assms(2) by (rule launch_start)
  have 1: "err s1 = Some e" "last (trace s1) = Start"
      "errs s1 = errs (snd (launch c i (env\<lparr>start_result := None\<rparr>) s))"
    using assms(1) by (simp_all add: s1 l0 emit_def)
  have "observable (trial c i (env\<lparr>start_result := start_result env\<rparr>) s)
      = observable (trial c i (env\<lparr>start_result := None\<rparr>) s)"
    by (rule start_result_unobservable)
  then have 2: "observable (trial c i env s)
      = observable (trial c i (env\<lparr>start_result := None\<rparr>) s)"
    by simp
  have "trial c i env s = record_step c (snd (restore_step c env (snd (collect_step c i env
      (snd (cascade c env s1))))))"
    using assms(2) by (simp add: trial_eq finish_eq)
  then have 3: "fst (trial c i env s) \<noteq> ReturnErr e'" for e'
    by (simp add: record_step_flow)
  have 4: "(if NoWindowWait (Run c) then Wait else WaitForWindow (windowspec s1))
      \<in> set (emitted s1 (snd (trial c i env s)))"
    using assms(2) by (rule trial_waits)
  have "err (snd (wait_step c env s1)) = snd (wait_for_window_result env)"
    if "\<not> NoWindowWait (Run c)"
    using that by (simp add: wait_step_def emit_def logError_def Let_def split: option.splits)
  moreover have "err (snd (trial c i env s)) = Some e" if "NoWindowWait (Run c)"
    using err_stays_without_window_wait [OF assms(2) that] 1(1) by simp
  ultimately have 5: "if NoWindowWait (Run c) then err (snd (trial c i env s)) = Some e
      else err (snd (wait_step c env s1)) = snd (wait_for_window_result env)"
    by simp
  have 6: "\<exists>r. outRes (snd (trial c i env s)) = outRes s @ [r]"
    if "fst (trial c i env s) = Next"
  proof -
    from that have "trial c i env s = (Next, snd (trial c i env s))"
      by (simp add: prod_eq_iff)
    then show ?thesis
      using trial_record [of c i env s "snd (trial c i env s)"] by blast
  qed
  from 1 2 3 4 5 6 show ?thesis
    by blast
qed

theorem start_error_is_dropped_witness:
  "start_result (sample_env\<lparr>start_result := Some ''exec: not found''\<rparr>)
     = Some ''exec: not found''
   \<and> fst (launch sample_cmd 0 (sample_env\<lparr>start_result := Some ''exec: not found''\<rparr>) init)
     = Next
   \<and> observable (trial sample_cmd 0 (sample_env\<lparr>start_result := Some ''exec: not found''\<rparr>)
        init)
     = (Next, [],
        [\<lparr>ExecveTiming = Some \<lparr>TotalTime = 70\<rparr>, TimeToDisplay = 50, TimeToRun = 70,
          Errors = []\<rparr>],
        [TempDir 0, Mkfifo 0, OpenFifo 0, GoReader 0, TraceExecCommand 0 [''sample-app''],
         FreeCaches, Start, WaitForWindow \<lparr>Class = ''sample-app'', Name = []\<rparr>,
         PidForWindowID ''w1'', PidForWindowID ''w2'', CloseWindowID ''w1'',
         CloseWindowID ''w2'', Signal 11, Signal 22, CloseFifo 0, AwaitDone 0],
        [CloseFifo 0, RemoveAll 0])
   \<and> WaitForWindow \<lparr>Class = ''sample-app'', Name = []\<rparr>
       \<in> set (emitted (snd (launch sample_cmd 0
              (sample_env\<lparr>start_result := Some ''exec: not found''\<rparr>) init))
            (snd (trial sample_cmd 0 (sample_env\<lparr>start_result := Some ''exec: not found''\<rparr>)
              init)))
   \<and> fst (launch (sample_cmd\<lparr>Run := sample_run\<lparr>NoWindowWait := True\<rparr>\<rparr>) 0
          (sample_env\<lparr>start_result := Some ''exec: not found''\<rparr>) init) = Next
   \<and> Wait \<in> set (emitted
          (snd (launch (sample_cmd\<lparr>Run := sample_run\<lparr>NoWindowWait := True\<rparr>\<rparr>) 0
            (sample_env\<lparr>start_result := Some ''exec: not found''\<rparr>) init))
          (snd (trial (sample_cmd\<lparr>Run := sample_run\<lparr>NoWindowWait := True\<rparr>\<rparr>) 0
            (sample_env\<lparr>start_result := Some ''exec: not found''\<rparr>) init)))
   \<and> err (snd (trial (sample_cmd\<lparr>Run := sample_run\<lparr>NoWindowWait := True\<rparr>\<rparr>) 0
          (sample_env\<lparr>start_result := Some ''exec: not found''\<rparr>) init))
     = Some ''exec: not found''"
proof -
  define env where "env = sample_env\<lparr>start_result := Some ''exec: not found''\<rparr>"
  define c' where "c' = sample_cmd\<lparr>Run := sample_run\<lparr>NoWindowWait := True\<rparr>\<rparr>"
  define s1 where "s1 = snd (launch sample_cmd 0 env init)"
  define s1' where "s1' = snd (launch c' 0 env init)"
  have h1: "start_result env = Some ''exec: not found''"
    by (simp add: env_def)
  have h2: "launch sample_cmd 0 env init = (Next, s1)"
    by (simp add: s1_def env_def eval_defs)
  have g2: "launch c' 0 env init = (Next, s1')"
    by (simp add: s1'_def c'_def env_def eval_defs)
  have nw: "\<not> NoWindowWait (Run sample_cmd)" and yw: "NoWindowWait (Run c')"
    by (simp_all add: c'_def sample_defs)
  have ws: "windowspec s1 = \<lparr>Class = ''sample-app'', Name = []\<rparr>"
    by (simp add: s1_def env_def eval_defs)
  have ob: "observable (trial sample_cmd 0 env init)
     = (Next, [],
        [\<lparr>ExecveTiming = Some \<lparr>TotalTime = 70\<rparr>, TimeToDisplay = 50, TimeToRun = 70,
          Errors = []\<rparr>],
        [TempDir 0, Mkfifo 0, OpenFifo 0, GoReader 0, TraceExecCommand 0 [''sample-app''],
         FreeCaches, Start, WaitForWindow \<lparr>Class = ''sample-app'', Name = []\<rparr>,
         PidForWindowID ''w1'', PidForWindowID ''w2'', CloseWindowID ''w1'',
         CloseWindowID ''w2'', Signal 11, Signal 22, CloseFifo 0, AwaitDone 0],
        [CloseFifo 0, RemoveAll 0])"
    by (simp add: env_def eval_defs observable_def)
  have "WaitForWindow \<lparr>Class = ''sample-app'', Name = []\<rparr>
      \<in> set (emitted s1 (snd (trial sample_cmd 0 env init)))"
    using start_error_is_dropped [OF h1 h2] nw ws by simp
  moreover have "Wait \<in> set (emitted s1' (snd (trial c' 0 env init)))"
      "err (snd (trial c' 0 env init)) = Some ''exec: not found''"
    using start_error_is_dropped [OF h1 g2] yw by simp_all
  moreover have "fst (launch sample_cmd 0 env init) = Next" "fst (launch c' 0 env init) = Next"
    using h2 g2 by simp_all
  ultimately show ?thesis
    using h1 ob unfolding s1_def s1'_def c'_def env_def by simp
qed

section \<open>The trace directory and the reader\<close>

lemma pushesI:
  "(\<And>s. \<exists>ds. defers (snd (f s)) = ds @ defers s \<and> list_all D ds) \<Longrightarrow> pushes D f"
  by (simp add: pushes_def)

lemma pushes_none: "(\<And>s. defers (snd (f s)) = defers s) \<Longrightarrow> pushes D f"
  by (simp add: pushes_def)

lemma pushes_seq:
  assumes "\<And>p. p \<in> set ps \<Longrightarrow> pushes D p"
  shows "pushes D (seq ps)"
  using assms
proof (induction ps)
  case Nil
  show ?case by (simp add: pushes_def)
next
  case (Cons p ps)
  have p: "pushes D p" and rest: "pushes D (seq ps)"
    using Cons by simp_all
  show ?case
  proof (rule pushesI)
    fix s
    obtain d1 where d1: "defers (snd (p s)) = d1 @ defers s" "list_all D d1"
      using p unfolding pushes_def by blast
    obtain d2 where d2: "defers (snd (seq ps (snd (p s)))) = d2 @ defers (snd (p s))"
        "list_all D d2"
      using rest unfolding pushes_def by blast
    show "\<exists>ds. defers (snd (seq (p # ps) s)) = ds @ defers s \<and> list_all D ds"
    proof (cases "fst (p s) = Next")
      case True
      then show ?thesis
        using d1 d2 by (intro exI [of _ "d2 @ d1"]) (simp add: seq_Cons)
    next
      case False
      then show ?thesis
        using d1 by (auto simp: seq_Cons)
    qed
  qed
qed

lemma push_one:
  "\<exists>ds. e # xs = ds @ xs \<and> list_all D ds" if "D e"
  using that by (intro exI [of _ "[e]"]) simp

lemma trial_pushes: "pushes deferred_event (trial c i env)"
proof -
  have "pushes deferred_event (prepare_step c env)"
    by (rule pushes_none) (simp add: step_defs Let_def split: option.splits)
  moreover have "pushes deferred_event (target_step c)"
    by (rule pushes_none) (simp add: step_defs)
  moreover have "pushes deferred_event (command_step c i env)"
  proof (cases "NoTrace (Run c)")
    case True
    then show ?thesis
      by (intro pushes_none) (simp add: step_defs split: list.splits)
  next
    case False
    have "pushes deferred_event (tempdir_step i env)"
      by (rule pushesI) (simp add: step_defs Let_def push_one split: option.splits)
    moreover have "pushes deferred_event (mkfifo_step i env)"
      by (rule pushes_none) (simp add: step_defs Let_def split: option.splits)
    moreover have "pushes deferred_event (openfifo_step i env)"
      by (rule pushesI) (simp add: step_defs Let_def push_one split: option.splits)
    moreover have "pushes deferred_event (reader_step i)"
      by (rule pushes_none) (simp add: step_defs)
    moreover have "pushes deferred_event (trace_exec_step i env)"
      by (rule pushes_none) (simp add: step_defs Let_def split: option.splits)
    ultimately have "pushes deferred_event (seq [tempdir_step i env, mkfifo_step i env,
        openfifo_step i env, reader_step i, trace_exec_step i env])"
      by (intro pushes_seq) auto
    with False show ?thesis
      by (simp add: command_step_def)
  qed
  moreover have "pushes deferred_event (log_step path res)" for path res
    by (rule pushesI) (simp add: step_defs Let_def push_one split: option.splits)
  moreover have "pushes deferred_event (discard_step c env)"
    by (rule pushes_none) (simp add: step_defs Let_def split: option.splits list.splits)
  moreover have "pushes deferred_event (windowspec_step c)"
    by (rule pushes_none) (simp add: step_defs Let_def split: option.splits)
  moreover have "pushes deferred_event (free_caches_step env)"
    by (rule pushes_none) (simp add: step_defs Let_def split: option.splits)
  moreover have "pushes deferred_event (start_step env)"
    by (rule pushes_none) (simp add: step_defs)
  ultimately have "pushes deferred_event (launch c i env)"
    unfolding launch_def by (intro pushes_seq) auto
  moreover have "pushes deferred_event (cascade c env)"
    by (rule pushes_none) (simp add: cascade_frame)
  moreover have "defers (snd (record_step c s)) = defers s" for s
    by (simp add: step_defs Let_def split: option.splits)
  then have "pushes deferred_event (finish c i env)"
    by (intro pushes_none) (simp add: finish_eq restore_step_frame collect_step_frame)
  ultimately show ?thesis
    unfolding trial_def by (intro pushes_seq) auto
qed

lemma trial_appends: "appends (\<lambda>e. \<not> removal e) (trial c i env)"
proof -
  have "launch_event e \<Longrightarrow> \<not> removal e" for e
    by (cases e) simp_all
  then have "appends (\<lambda>e. \<not> removal e) (launch c i env)"
    by (rule appends_mono [OF launch_appends])
  moreover have "cascade_event e \<Longrightarrow> \<not> removal e" for e
    by (cases e) simp_all
  then have "appends (\<lambda>e. \<not> removal e) (cascade c env)"
    by (rule appends_mono [OF cascade_appends])
  moreover have "finish_event e \<Longrightarrow> \<not> removal e" for e
    by (cases e) simp_all
  then have "appends (\<lambda>e. \<not> removal e) (finish c i env)"
    by (rule appends_mono [OF finish_appends])
  ultimately show ?thesis
    unfolding trial_def by (intro appends_seq) auto
qed

lemma loop_appends:
  "\<exists>evs. trace (snd (loop c env i s)) = trace s @ evs \<and> list_all (\<lambda>e. \<not> removal e) evs"
proof (induction c env i s rule: loop.induct)
  case (1 c env i s)
  show ?case
  proof (cases "i < 1 + AdditionalIterations c")
    case False
    then show ?thesis
      by (simp add: loop.simps [of c env i s])
  next
    case True
    obtain fl s' where t: "trial c (unat i) (trials env (unat i)) s = (fl, s')"
      by (cases "trial c (unat i) (trials env (unat i)) s")
    obtain e1 where e1: "trace s' = trace s @ e1" "list_all (\<lambda>e. \<not> removal e) e1"
      using trial_appends [of c "unat i" "trials env (unat i)"] t
      unfolding appends_def by (metis snd_conv)
    show ?thesis
    proof (cases fl)
      case Next
      then obtain e2 where "trace (snd (loop c env (i + 1) s')) = trace s' @ e2"
          "list_all (\<lambda>e. \<not> removal e) e2"
        using "1.IH" [OF True t [symmetric]] t by auto
      then show ?thesis
        using e1 True t Next
        by (intro exI [of _ "e1 @ e2"]) (simp add: loop.simps [of c env i s])
    qed (use e1 True t in \<open>simp_all add: loop.simps [of c env i s]\<close>)
  qed
qed

lemma loop_pushes:
  "\<exists>ds. defers (snd (loop c env i s)) = ds @ defers s \<and> list_all deferred_event ds"
proof (induction c env i s rule: loop.induct)
  case (1 c env i s)
  show ?case
  proof (cases "i < 1 + AdditionalIterations c")
    case False
    then show ?thesis
      by (simp add: loop.simps [of c env i s])
  next
    case True
    obtain fl s' where t: "trial c (unat i) (trials env (unat i)) s = (fl, s')"
      by (cases "trial c (unat i) (trials env (unat i)) s")
    obtain d1 where d1: "defers s' = d1 @ defers s" "list_all deferred_event d1"
      using trial_pushes [of c "unat i" "trials env (unat i)"] t
      unfolding pushes_def by (metis snd_conv)
    show ?thesis
    proof (cases fl)
      case Next
      then obtain d2 where "defers (snd (loop c env (i + 1) s')) = d2 @ defers s'"
          "list_all deferred_event d2"
        using "1.IH" [OF True t [symmetric]] t by auto
      then show ?thesis
        using d1 True t Next
        by (intro exI [of _ "d2 @ d1"]) (simp add: loop.simps [of c env i s])
    qed (use d1 True t in \<open>simp_all add: loop.simps [of c env i s]\<close>)
  qed
qed

lemma Execute_trace:
  obtains tb ds where "trace (snd (Execute c env)) = tb @ ds"
    and "list_all (\<lambda>e. \<not> removal e) tb" and "list_all deferred_event ds"
proof -
  have "appends (\<lambda>e. \<not> removal e) (output_step c env)"
    by (rule appendsI) (simp add: step_defs Let_def split: option.splits)
  moreover have "appends (\<lambda>e. \<not> removal e) (loop c env 0)"
    by (simp add: appends_def loop_appends)
  moreover have "appends (\<lambda>e. \<not> removal e) (encode_step c)"
    by (rule appendsI) (simp add: step_defs)
  ultimately have "appends (\<lambda>e. \<not> removal e) (body c env)"
    unfolding body_def by (intro appends_seq) auto
  then obtain tb where tb: "trace (snd (body c env init)) = tb"
      "list_all (\<lambda>e. \<not> removal e) tb"
    unfolding appends_def by (metis append_Nil init_def state.select_convs(3))
  have "pushes deferred_event (output_step c env)"
    by (rule pushes_none) (simp add: step_defs Let_def split: option.splits)
  moreover have "pushes deferred_event (loop c env 0)"
    by (simp add: pushes_def loop_pushes)
  moreover have "pushes deferred_event (encode_step c)"
    by (rule pushes_none) (simp add: step_defs)
  ultimately have "pushes deferred_event (body c env)"
    unfolding body_def by (intro pushes_seq) auto
  then obtain ds where ds: "defers (snd (body c env init)) = ds" "list_all deferred_event ds"
    unfolding pushes_def by (metis append_Nil2 init_def state.select_convs(4))
  have "trace (snd (Execute c env)) = tb @ ds"
    using tb(1) ds(1) by (simp add: Execute_def run_defers_def)
  then show ?thesis
    using tb(2) ds(2) by (rule that)
qed

lemma precedes_prefix: "a \<in> set xs \<Longrightarrow> b \<notin> set xs \<Longrightarrow> precedes a b (xs @ ys)"
  by (induction xs) auto

lemma precedes_trans: "precedes a b t \<Longrightarrow> precedes b c t \<Longrightarrow> precedes a c t"
  by (induction t) (auto split: if_splits)

lemma precedes_control:
  "\<not> reader_done a \<Longrightarrow> \<not> reader_done b \<Longrightarrow> precedes a b (control t) = precedes a b t"
  by (induction t) (auto simp: control_def)

text \<open>
  Claim C7: on every exit path of a traced trial, the fatal ones included, the temporary
  trace directory is never removed before the completion signal of the reader has fired.

  When \<^verbatim>\<open>strace.TraceExecCommand\<close> fails (line 190), \<^verbatim>\<open>Execute\<close> returns after the
  goroutine was started and without the receive of line 342: the deferred calls close the
  sentinel writer and remove the directory at once, and the reader may finish only
  afterwards.
\<close>

theorem removed_before_reader_done:
  "execution sample_cmd (all_trials (sample_env\<lparr>trace_exec_result := Some ''no strace''\<rparr>))
     aborted_execution
   \<and> fst (Execute sample_cmd (all_trials (sample_env\<lparr>trace_exec_result := Some ''no strace''\<rparr>)))
     = ReturnErr ''no strace''
   \<and> GoReader 0 \<in> set aborted_execution
   \<and> \<not> precedes (ReaderDone 0) (RemoveAll 0) aborted_execution"
  by (simp add: execution_def control_def reader_ok_def eval_defs)

text \<open>
  Claim C7, amended: in every execution of a run, the directory of a trial whose control
  thread got to wait for the reader (line 342) is not removed before the completion signal
  of that reader has fired.
\<close>

theorem waited_reader_done_before_removal:
  assumes "execution c env t" and "AwaitDone i \<in> set t"
  shows "precedes (ReaderDone i) (RemoveAll i) t"
proof -
  obtain tb ds where tr: "control t = tb @ ds"
    and tb: "list_all (\<lambda>e. \<not> removal e) tb" and ds: "list_all deferred_event ds"
    using assms(1) Execute_trace [of c env] unfolding execution_def by metis
  have "AwaitDone i \<in> set (control t)"
    using assms(2) by (simp add: control_def)
  moreover have "AwaitDone i \<notin> set ds"
    using ds by (auto simp: list_all_iff)
  ultimately have "AwaitDone i \<in> set tb"
    by (simp add: tr)
  moreover have "RemoveAll i \<notin> set tb"
    using tb by (auto simp: list_all_iff)
  ultimately have "precedes (AwaitDone i) (RemoveAll i) (control t)"
    unfolding tr by (rule precedes_prefix)
  then have 1: "precedes (AwaitDone i) (RemoveAll i) t"
    by (simp add: precedes_control)
  have "\<forall>x\<in>set t. reader_rule t x"
    using assms(1) unfolding execution_def reader_ok_def by (simp add: list_all_iff)
  then have "reader_rule t (AwaitDone i)"
    using assms(2) by blast
  then have 2: "precedes (ReaderDone i) (AwaitDone i) t"
    by simp
  from 2 1 show ?thesis
    by (rule precedes_trans)
qed

theorem waited_reader_done_before_removal_witness:
  "execution sample_cmd (all_trials sample_env) sample_execution
   \<and> AwaitDone 0 \<in> set sample_execution
   \<and> precedes (ReaderDone 0) (RemoveAll 0) sample_execution"
proof -
  have h1: "execution sample_cmd (all_trials sample_env) sample_execution"
    by (simp add: execution_def control_def reader_ok_def eval_defs)
  have h2: "AwaitDone 0 \<in> set sample_execution"
    by (simp add: sample_execution_def)
  show ?thesis
    using waited_reader_done_before_removal [OF h1 h2] h1 h2 by simp
qed

section \<open>Supporting facts on the defects\<close>

text \<open>
  A traced trial whose parser returns a nil timing never completes: it returns earlier
  with an error, or it panics at line 371.
\<close>

lemma nil_timing_never_completes:
  assumes "\<not> NoTrace (Run c)" and "fst (trace_timings_result env) = None"
  shows "fst (trial c i env s) \<noteq> Next"
proof (cases "fst (launch c i env s) = Next")
  case False
  then show ?thesis
    by (simp add: trial_stops)
next
  case True
  then obtain s1 where l: "launch c i env s = (Next, s1)"
    by (cases "launch c i env s") auto
  define s4 where "s4 = snd (restore_step c env (snd (collect_step c i env
      (snd (cascade c env s1)))))"
  have "slg s4 = None"
    using assms by (simp add: s4_def restore_step_frame collect_step_frame)
  then have "fst (record_step c s4) = Panic ''nil pointer dereference''"
    using assms(1) by (simp add: record_step_def)
  moreover have "trial c i env s = record_step c s4"
    using l by (simp add: trial_eq finish_eq s4_def)
  ultimately show ?thesis
    by simp
qed

text \<open>
  The records of a run that returns nil are those of the trials
  \<open>0, \<dots>, unat (1 + AdditionalIterations c) - 1\<close>, in this order; the sum is the one
  of \<^verbatim>\<open>uint\<close>, so there are \<open>1 + additional\<close> of them unless the sum wraps around.
\<close>

lemma loop_records:
  assumes "loop c env i s = (Next, s')"
  shows "map TimeToDisplay (outRes s') = map TimeToDisplay (outRes s)
    @ map (\<lambda>k. elapsed (trials env k)) [unat i..<unat (1 + AdditionalIterations c)]"
  using assms
proof (induction c env i s rule: loop.induct)
  case (1 c env i s)
  show ?case
  proof (cases "i < 1 + AdditionalIterations c")
    case False
    then have "unat (1 + AdditionalIterations c) \<le> unat i"
      by (simp add: word_less_nat_alt)
    with False "1.prems" show ?thesis
      by (simp add: loop.simps [of c env i s])
  next
    case True
    obtain fl s1 where t: "trial c (unat i) (trials env (unat i)) s = (fl, s1)"
      by (cases "trial c (unat i) (trials env (unat i)) s")
    have fl: "fl = Next"
      using "1.prems" True t by (cases fl) (simp_all add: loop.simps [of c env i s])
    then have rest: "loop c env (i + 1) s1 = (Next, s')"
      using "1.prems" True t by (simp add: loop.simps [of c env i s])
    obtain r where r: "outRes s1 = outRes s @ [r]"
        "TimeToDisplay r = elapsed (trials env (unat i))"
      using trial_record [of c "unat i" "trials env (unat i)" s s1] t fl by auto
    have lt: "unat i < unat (1 + AdditionalIterations c)"
      using True by (simp add: word_less_nat_alt)
    have suc: "unat (i + 1) = Suc (unat i)"
      using True by unat_arith
    have "map TimeToDisplay (outRes s') = map TimeToDisplay (outRes s1)
        @ map (\<lambda>k. elapsed (trials env k)) [unat (i + 1)..<unat (1 + AdditionalIterations c)]"
      using "1.IH" [OF True t [symmetric]] fl rest by simp
    then show ?thesis
      using r lt by (simp add: suc upt_conv_Cons)
  qed
qed

lemma seq_not_nil:
  assumes "\<And>p s. p \<in> set ps \<Longrightarrow> fst (p s) \<noteq> ReturnNil"
  shows "fst (seq ps s) \<noteq> ReturnNil"
  using assms by (induction ps arbitrary: s) (simp_all add: seq_Cons)

lemma trial_not_nil: "fst (trial c i env s) \<noteq> ReturnNil"
proof -
  have "fst (discard_step c env s) \<noteq> ReturnNil" for s
    by (simp add: discard_step_def Let_def split: option.splits list.splits)
  moreover have "fst (windowspec_step c s) \<noteq> ReturnNil" for s
    by (simp add: windowspec_step_def Let_def split: option.splits)
  moreover have "fst (free_caches_step env s) \<noteq> ReturnNil" for s
    by (simp add: free_caches_step_def Let_def split: option.splits)
  moreover have "fst (start_step env s) \<noteq> ReturnNil" for s
    by (simp add: start_step_def)
  ultimately have "fst (launch c i env s) \<noteq> ReturnNil" for s
    unfolding launch_def
    by (intro seq_not_nil)
      (auto simp: prepare_step_flow target_step_flow command_step_flow log_step_flow
        split: option.splits if_splits)
  moreover have "fst (finish c i env s) \<noteq> ReturnNil" for s
    by (simp add: finish_eq record_step_def Let_def split: option.splits)
  ultimately show ?thesis
    unfolding trial_def by (intro seq_not_nil) (auto simp: cascade_frame)
qed

lemma loop_not_nil: "fst (loop c env i s) \<noteq> ReturnNil"
proof (induction c env i s rule: loop.induct)
  case (1 c env i s)
  show ?case
  proof (cases "i < 1 + AdditionalIterations c")
    case False
    then show ?thesis
      by (simp add: loop.simps [of c env i s])
  next
    case True
    obtain fl s1 where t: "trial c (unat i) (trials env (unat i)) s = (fl, s1)"
      by (cases "trial c (unat i) (trials env (unat i)) s")
    have "fl \<noteq> ReturnNil"
      using trial_not_nil [of c "unat i" "trials env (unat i)" s] t by simp
    then show ?thesis
      using True t "1.IH" [OF True t [symmetric]]
      by (cases fl) (simp_all add: loop.simps [of c env i s])
  qed
qed

lemma completed_run_records:
  assumes "fst (Execute c env) = ReturnNil"
  shows "map TimeToDisplay (outRes (snd (Execute c env)))
    = map (\<lambda>k. elapsed (trials env k)) [0..<unat (1 + AdditionalIterations c)]"
proof -
  define s0 where "s0 = snd (output_step c env init)"
  have o: "outRes s0 = []"
    by (simp add: s0_def step_defs init_def Let_def split: option.splits)
  have b: "fst (body c env init) = ReturnNil"
    using assms by (simp add: Execute_def run_defers_def)
  have "fst (output_step c env init) \<noteq> ReturnNil"
    by (simp add: output_step_def Let_def split: option.splits)
  with b have o1: "fst (output_step c env init) = Next"
    by (auto simp: body_def seq_Cons split: if_splits)
  with b have l1: "fst (loop c env 0 s0) = Next"
    using loop_not_nil [of c env 0 s0]
    by (auto simp: body_def seq_Cons s0_def split: if_splits)
  define s1 where "s1 = snd (loop c env 0 s0)"
  have "loop c env 0 s0 = (Next, s1)"
    using l1 by (simp add: s1_def prod_eq_iff)
  then have "map TimeToDisplay (outRes s1)
      = map (\<lambda>k. elapsed (trials env k)) [0..<unat (1 + AdditionalIterations c)]"
    using loop_records [of c env 0 s0 s1] o by simp
  moreover have "outRes (snd (Execute c env)) = outRes s1"
    using o1 l1
    by (simp add: Execute_def run_defers_def body_def seq_Cons s0_def s1_def encode_step_def
        emit_def)
  ultimately show ?thesis
    by simp
qed

lemma completed_run_count:
  assumes "fst (Execute c env) = ReturnNil" and "AdditionalIterations c \<noteq> - 1"
  shows "length (outRes (snd (Execute c env))) = 1 + unat (AdditionalIterations c)"
proof -
  have "1 + AdditionalIterations c \<noteq> 0"
    using assms(2) by (simp add: add_eq_0_iff)
  then have "unat (1 + AdditionalIterations c) = Suc (unat (AdditionalIterations c))"
    by (rule unatSuc)
  moreover have "length (map TimeToDisplay (outRes (snd (Execute c env))))
      = unat (1 + AdditionalIterations c)"
    by (simp only: completed_run_records [OF assms(1)]) simp
  ultimately show ?thesis
    by simp
qed

end
